theory Spec2Isabelle
  imports
    Main
    "HOL-Library.AList"
    "HOL-Library.Char_ord"
    "HOL-Library.List_Lexorder"
    "HOL-Library.Product_Lexorder"
begin

section \<open>Mark feature writer of ufo2ft: anchors, mark classes and lookups\<close>

text \<open>
  The development embeds \<^verbatim>\<open>Lib/ufo2ft/featureWriters/markFeatureWriter.py\<close>.
  Python strings are modelled as \<^typ>\<open>string\<close>, one \<^typ>\<open>char\<close> per code point, so
  the model covers names whose code points are below 256. Strings and lists of
  strings are ordered lexicographically by code point, as Python orders them.
  Python dictionaries are association lists in insertion order; an assignment
  \<^verbatim>\<open>d[k] = v\<close> is \<^const>\<open>AList.update\<close>, which replaces the value in place when
  the key is present and appends the entry otherwise.
\<close>

subsection \<open>Errors\<close>

datatype error =
    IndexError
  | AssertionError
  | AttributeError
  | TypeError
  | FeatureLibError
  | ValueError_emptySequence
  | ValueError_markAnchorNumbered string
  | ValueError_markAnchorKeyNil string
  | ValueError_componentIndex

subsection \<open>String primitives\<close>

definition newline :: char where
  "newline = CHR 0x0A"

definition isdigit :: "char \<Rightarrow> bool" where
  "isdigit c = (c \<in> set ''0123456789'')"

text \<open>\<^verbatim>\<open>str.isalpha\<close> on one code point below 256: the Unicode letters of that range.\<close>

definition isalpha :: "char \<Rightarrow> bool" where
  "isalpha c =
     (let n = (of_char c :: nat)
      in (65 \<le> n \<and> n \<le> 90) \<or> (97 \<le> n \<and> n \<le> 122) \<or> n = 170 \<or> n = 181 \<or> n = 186
         \<or> (192 \<le> n \<and> n \<le> 214) \<or> (216 \<le> n \<and> n \<le> 246) \<or> (248 \<le> n \<and> n \<le> 255))"

definition startswith :: "string \<Rightarrow> string \<Rightarrow> bool" where
  "startswith s p = (take (length p) s = p)"

definition endswith :: "string \<Rightarrow> string \<Rightarrow> bool" where
  "endswith s p = (length p \<le> length s \<and> drop (length s - length p) s = p)"

text \<open>\<^verbatim>\<open>s.rstrip(chars)\<close>: drop every trailing character that occurs in \<open>chars\<close>.\<close>

definition rstrip :: "string \<Rightarrow> string \<Rightarrow> string" where
  "rstrip s chars = rev (dropWhile (\<lambda>c. c \<in> set chars) (rev s))"

text \<open>\<^verbatim>\<open>int(number)\<close> on a string of decimal digits.\<close>

definition digit_value :: "char \<Rightarrow> nat" where
  "digit_value c = of_char c - of_char (CHR ''0'')"

definition int_of_digits :: "string \<Rightarrow> nat" where
  "int_of_digits ds = foldl (\<lambda>n c. 10 * n + digit_value c) 0 ds"

text \<open>
  \<^verbatim>\<open>LIGA_NUM_RE = re.compile(r".*?(\d+)$")\<close> used with \<^verbatim>\<open>match\<close>: the match is
  anchored at the start, \<^verbatim>\<open>.\<close> does not match a newline, and \<^verbatim>\<open>$\<close> matches at the
  end of the string or just before a newline that ends it. The lazy prefix makes
  group 1 the whole trailing run of digits. The result is group 1, or \<open>None\<close> when
  the pattern does not match.
\<close>

definition LIGA_NUM_RE_match :: "string \<Rightarrow> string option" where
  "LIGA_NUM_RE_match s =
     (let body = (if s \<noteq> [] \<and> last s = newline then butlast s else s);
          digits = rev (takeWhile isdigit (rev body))
      in if digits \<noteq> [] \<and> newline \<notin> set body then Some digits else None)"

text \<open>
  \<^verbatim>\<open>re.sub(r"\..*", "", s)\<close>: every dot is removed together with the rest of its
  line; the newline itself stays.
\<close>

function re_sub_dot_rest :: "string \<Rightarrow> string" where
  "re_sub_dot_rest [] = []"
| "re_sub_dot_rest (c # cs) =
     (if c = CHR ''.'' then re_sub_dot_rest (dropWhile (\<lambda>d. d \<noteq> newline) cs)
      else c # re_sub_dot_rest cs)"
  by pat_completeness auto
termination
  by (relation "measure length") (auto simp: length_dropWhile_le less_Suc_eq_le)

subsection \<open>Anchor name parser\<close>

text \<open>
  The per-anchor lib data is a dictionary from lib keys to text. The key
  \<^verbatim>\<open>ANCHOR_LIB_GPOS_CONTEXT_KEY\<close> is a constant of \<^verbatim>\<open>ufo2ft.constants\<close>; it is the
  parameter \<open>ctxKey\<close> of the functions that read it.
\<close>

type_synonym libData = "(string \<times> string) list"

definition MARK_PREFIX :: string where
  "MARK_PREFIX = ''_''"

definition LIGA_SEPARATOR :: string where
  "LIGA_SEPARATOR = ''_''"

text \<open>\<^verbatim>\<open>libData and ANCHOR_LIB_GPOS_CONTEXT_KEY in libData\<close>, as a truth value.\<close>

definition hasContextKey :: "string \<Rightarrow> libData option \<Rightarrow> bool" where
  "hasContextKey ctxKey libData =
     (case libData of None \<Rightarrow> False | Some d \<Rightarrow> d \<noteq> [] \<and> ctxKey \<in> fst ` set d)"

text \<open>
  The branch on the ligature number: the key and the component number read from
  the name, or the failure of \<^verbatim>\<open>assert separator\<close>.
\<close>

definition parseLigaNumber :: "string \<Rightarrow> string \<Rightarrow> error + (string \<times> nat option)" where
  "parseLigaNumber anchorName ligaSeparator =
     (case LIGA_NUM_RE_match anchorName of
        None \<Rightarrow> Inr (anchorName, None)
      | Some number \<Rightarrow>
          (let key = rstrip anchorName number in
           if endswith key ligaSeparator then
             (if ligaSeparator = [] then Inl AssertionError
              else Inr (take (length key - length ligaSeparator) key,
                        Some (int_of_digits number)))
           else Inr (anchorName, None)))"

text \<open>
  \<^verbatim>\<open>parseAnchorName\<close> with the default \<^verbatim>\<open>ligaNumRE\<close>. The argument \<open>ignoreRE\<close> is
  \<open>None\<close> or the substitution \<^verbatim>\<open>re.sub(ignoreRE, "", _)\<close> as a function. The result is
  the tuple \<^verbatim>\<open>(isMark, key, number, isContextual, isIgnorable)\<close>. The last component
  is the truth value of the Python expression \<^verbatim>\<open>key and not key[0].isalpha()\<close>, which
  is the empty string, hence false, when the key is empty.
\<close>

definition parseAnchorName ::
  "string \<Rightarrow> string \<Rightarrow> string \<Rightarrow> string \<Rightarrow> (string \<Rightarrow> string) option \<Rightarrow> libData option
     \<Rightarrow> error + (bool \<times> string \<times> nat option \<times> bool \<times> bool)" where
  "parseAnchorName ctxKey anchorName0 markPrefix ligaSeparator ignoreRE libData =
     (let anchorName1 = (case ignoreRE of None \<Rightarrow> anchorName0 | Some sub \<Rightarrow> sub anchorName0) in
      case anchorName1 of
        [] \<Rightarrow> Inl IndexError
      | c # rest \<Rightarrow>
          (let isContextual = (c = CHR ''*'' \<and> hasContextKey ctxKey libData);
               anchorName = (if isContextual then re_sub_dot_rest rest else anchorName1)
           in case parseLigaNumber anchorName ligaSeparator of
                Inl e \<Rightarrow> Inl e
              | Inr (key, number) \<Rightarrow>
                  (if startswith anchorName markPrefix \<and> key \<noteq> [] then
                     (if number \<noteq> None then Inl (ValueError_markAnchorNumbered anchorName)
                      else
                        (let key' = drop (length markPrefix) key in
                         if key' = [] then Inl (ValueError_markAnchorKeyNil anchorName)
                         else Inr (True, key', number, isContextual,
                                   \<not> isalpha (hd key'))))
                   else
                     Inr (False, key, number, isContextual,
                          key \<noteq> [] \<and> \<not> isalpha (hd key)))))"

subsection \<open>Named anchors\<close>

text \<open>
  An anchor of a feature file (\<^verbatim>\<open>ast.Anchor\<close>) with the five attributes that
  \<^verbatim>\<open>_anchorsAreEqual\<close> reads, and a mark class (\<^verbatim>\<open>ast.MarkClass\<close>): its name and the
  ordered dictionary \<^verbatim>\<open>glyphs\<close> from a glyph name to the anchor of its definition.
\<close>

record Anchor =
  anchor_x :: int
  anchor_y :: int
  contourpoint :: "nat option"
  xDeviceTable :: "(nat \<times> int) list option"
  yDeviceTable :: "(nat \<times> int) list option"

record MarkClass =
  mc_name :: string
  mc_glyphs :: "(string \<times> Anchor) list"

text \<open>
  The class \<^verbatim>\<open>NamedAnchor\<close>. The coordinates are of any numeric type \<open>'c\<close>; the
  fields carry the prefix \<open>a_\<close>.
\<close>

record 'c NamedAnchor =
  a_name :: string
  a_x :: 'c
  a_y :: 'c
  a_isMark :: bool
  a_key :: string
  a_number :: "nat option"
  a_markClass :: "MarkClass option"
  a_isContextual :: bool
  a_isIgnorable :: bool
  a_libData :: "libData option"

text \<open>\<^verbatim>\<open>NamedAnchor.__init__\<close>, with the naming scheme of the class attributes.\<close>

definition NamedAnchor_init ::
  "string \<Rightarrow> string \<Rightarrow> 'c \<Rightarrow> 'c \<Rightarrow> MarkClass option \<Rightarrow> libData option
     \<Rightarrow> error + 'c NamedAnchor" where
  "NamedAnchor_init ctxKey name x y markClass libData =
     (case parseAnchorName ctxKey name MARK_PREFIX LIGA_SEPARATOR None libData of
        Inl e \<Rightarrow> Inl e
      | Inr (isMark, key, number, isContextual, isIgnorable) \<Rightarrow>
          (if (case number of Some n \<Rightarrow> n < 1 | None \<Rightarrow> False) then
             Inl ValueError_componentIndex
           else if number = None \<and> key = [] then Inl AssertionError
           else Inr \<lparr>a_name = name, a_x = x, a_y = y, a_isMark = isMark, a_key = key,
                     a_number = number, a_markClass = markClass,
                     a_isContextual = isContextual, a_isIgnorable = isIgnorable,
                     a_libData = libData\<rparr>))"

text \<open>The property \<^verbatim>\<open>markAnchorName\<close>.\<close>

definition markAnchorName :: "'c NamedAnchor \<Rightarrow> string" where
  "markAnchorName a = MARK_PREFIX @ a_key a"

subsection \<open>Graph colouring\<close>

text \<open>
  \<^verbatim>\<open>firstAvailable\<close>: the loop counts up from 0 until the count is not in the set of
  colours. The set is finite (a list here), so the loop ends: the count cannot pass
  the largest colour.
\<close>

function firstAvailable_loop :: "nat list \<Rightarrow> nat \<Rightarrow> nat" where
  "firstAvailable_loop colorSet count =
     (if count \<notin> set colorSet then count else firstAvailable_loop colorSet (count + 1))"
  by pat_completeness auto
termination
proof (relation "measure (\<lambda>(colorSet, count). Suc (Max (set colorSet)) - count)")
  show "wf (measure (\<lambda>(colorSet, count). Suc (Max (set colorSet)) - count))" by simp
next
  fix colorSet :: "nat list" and count :: nat
  assume "\<not> count \<notin> set colorSet"
  then have "count \<le> Max (set colorSet)" by simp
  then show "((colorSet, count + 1), (colorSet, count))
      \<in> measure (\<lambda>(colorSet, count). Suc (Max (set colorSet)) - count)"
    by simp
qed

declare firstAvailable_loop.simps [simp del]

definition firstAvailable :: "nat list \<Rightarrow> nat" where
  "firstAvailable colorSet = firstAvailable_loop colorSet 0"

text \<open>
  \<^verbatim>\<open>colorGraph\<close>. The adjacency dictionary is an association list from a vertex to
  the list of its neighbours, with one entry per vertex. The loop
  \<^verbatim>\<open>for node in sorted(adjacency)\<close> reads \<^verbatim>\<open>adjacency[node]\<close> for each key in
  increasing order: it visits the entries sorted by key. One step colours a node
  with the first colour that none of its coloured neighbours has.
\<close>

definition colorStep :: "('v \<times> nat) list \<Rightarrow> ('v \<times> 'v list) \<Rightarrow> ('v \<times> nat) list" where
  "colorStep colors item =
     (case item of (node, neighbours) \<Rightarrow>
        AList.update node (firstAvailable (List.map_filter (map_of colors) neighbours)) colors)"

text \<open>
  \<^verbatim>\<open>groups[color].append(node)\<close> on a \<^verbatim>\<open>defaultdict(list)\<close>: a colour seen for the
  first time gets a new entry at the end.
\<close>

definition groupStep :: "(nat \<times> 'v list) list \<Rightarrow> ('v \<times> nat) \<Rightarrow> (nat \<times> 'v list) list" where
  "groupStep groups item =
     (case item of (node, color) \<Rightarrow>
        AList.update color
          ((case map_of groups color of None \<Rightarrow> [] | Some g \<Rightarrow> g) @ [node]) groups)"

definition colorGraph :: "('v::linorder \<times> 'v list) list \<Rightarrow> 'v list list" where
  "colorGraph adjacency =
     map snd (foldl groupStep [] (foldl colorStep [] (sort_key fst adjacency)))"

text \<open>
  Properties of an adjacency dictionary: the adjacency is symmetric, a vertex is
  adjacent to another, no vertex has a neighbour, every two vertices are adjacent.
\<close>

definition symmetric_adj :: "('v \<times> 'v list) list \<Rightarrow> bool" where
  "symmetric_adj adj =
     (\<forall>(u, nu) \<in> set adj. \<forall>(v, nv) \<in> set adj. v \<in> set nu \<longrightarrow> u \<in> set nv)"

definition adjacent :: "('v \<times> 'v list) list \<Rightarrow> 'v \<Rightarrow> 'v \<Rightarrow> bool" where
  "adjacent adj u v = (\<exists>(u', nu) \<in> set adj. u' = u \<and> v \<in> set nu)"

definition edgeless :: "('v \<times> 'v list) list \<Rightarrow> bool" where
  "edgeless adj = (\<forall>(u, nu) \<in> set adj. nu = [])"

definition complete_adj :: "('v \<times> 'v list) list \<Rightarrow> bool" where
  "complete_adj adj = (\<forall>(u, nu) \<in> set adj. \<forall>(v, nv) \<in> set adj. u \<noteq> v \<longrightarrow> v \<in> set nu)"

subsection \<open>Anchor collector\<close>

text \<open>
  The glyph set as the writer reads it: a glyph has its anchors in order and the
  object libs \<^verbatim>\<open>glyph.lib.get(OBJECT_LIBS_KEY)\<close>; an anchor of the font has an optional
  name, coordinates and an optional identifier. The GDEF classes are sets of glyph
  names or \<^verbatim>\<open>None\<close>.
\<close>

record 'c UFOAnchor =
  ufo_name :: "string option"
  ufo_x :: 'c
  ufo_y :: 'c
  ufo_identifier :: "string option"

record 'c UFOGlyph =
  g_anchors :: "'c UFOAnchor list"
  g_objectLibs :: "(string \<times> libData) list option"

record GDEFGlyphClasses =
  gdef_base :: "string list option"
  gdef_ligature :: "string list option"
  gdef_mark :: "string list option"

datatype warning =
    Warning_unnamedAnchor string
  | Warning_duplicateAnchor string string

text \<open>A loop over a list whose body may raise: the first error ends the loop.\<close>

fun foldE :: "('s \<Rightarrow> 'a \<Rightarrow> error + 's) \<Rightarrow> 's \<Rightarrow> 'a list \<Rightarrow> error + 's" where
  "foldE f s [] = Inr s"
| "foldE f s (x # xs) = (case f s x of Inl e \<Rightarrow> Inl e | Inr s' \<Rightarrow> foldE f s' xs)"

text \<open>
  \<^verbatim>\<open>libData = objectLibs.get(anchor.identifier)\<close>, read when the identifier and the
  object libs are both truthy.
\<close>

definition anchorLibData ::
  "('c, 'z) UFOAnchor_scheme \<Rightarrow> (string \<times> libData) list option \<Rightarrow> libData option" where
  "anchorLibData anchor objectLibs =
     (case ufo_identifier anchor of
        None \<Rightarrow> None
      | Some ident \<Rightarrow>
          (if ident = [] then None
           else (case objectLibs of
                   None \<Rightarrow> None
                 | Some libs \<Rightarrow> if libs = [] then None else map_of libs ident)))"

text \<open>
  The named anchor built for one anchor of the font. The method \<^verbatim>\<open>_getAnchor\<close> is
  not in this file; it is the parameter \<open>getAnchor\<close>, which gives the coordinates.
\<close>

definition buildNamedAnchor ::
  "string \<Rightarrow> (string \<Rightarrow> string \<Rightarrow> 'c UFOAnchor \<Rightarrow> 'd \<times> 'd) \<Rightarrow> string
     \<Rightarrow> (string \<times> libData) list option \<Rightarrow> string \<Rightarrow> 'c UFOAnchor \<Rightarrow> error + 'd NamedAnchor" where
  "buildNamedAnchor ctxKey getAnchor glyphName objectLibs anchorName anchor =
     (case getAnchor glyphName anchorName anchor of
        (x, y) \<Rightarrow> NamedAnchor_init ctxKey anchorName x y None (anchorLibData anchor objectLibs))"

text \<open>
  The body of the loop over the anchors of one glyph in \<^verbatim>\<open>_getAnchorLists\<close>. The state
  is the ordered dictionary \<^verbatim>\<open>anchorDict\<close> and the warnings logged so far. An unnamed
  anchor is logged and skipped. A name that is already in the dictionary is logged,
  and the loop body goes on: the new anchor is stored under the name.
\<close>

definition collectAnchor ::
  "string \<Rightarrow> (string \<Rightarrow> string \<Rightarrow> 'c UFOAnchor \<Rightarrow> 'd \<times> 'd) \<Rightarrow> string
     \<Rightarrow> (string \<times> libData) list option
     \<Rightarrow> (string \<times> 'd NamedAnchor) list \<times> warning list \<Rightarrow> 'c UFOAnchor
     \<Rightarrow> error + ((string \<times> 'd NamedAnchor) list \<times> warning list)" where
  "collectAnchor ctxKey getAnchor glyphName objectLibs st anchor =
     (case st of (anchorDict, log) \<Rightarrow>
        (case ufo_name anchor of
           None \<Rightarrow> Inr (anchorDict, log @ [Warning_unnamedAnchor glyphName])
         | Some anchorName \<Rightarrow>
             (if anchorName = [] then Inr (anchorDict, log @ [Warning_unnamedAnchor glyphName])
              else
                (let log' = (if anchorName \<in> fst ` set anchorDict
                             then log @ [Warning_duplicateAnchor anchorName glyphName]
                             else log)
                 in case buildNamedAnchor ctxKey getAnchor glyphName objectLibs anchorName anchor of
                      Inl e \<Rightarrow> Inl e
                    | Inr a \<Rightarrow>
                        (if a_isIgnorable a then Inr (anchorDict, log')
                         else Inr (AList.update anchorName a anchorDict, log'))))))"

definition collectGlyphAnchors ::
  "string \<Rightarrow> (string \<Rightarrow> string \<Rightarrow> 'c UFOAnchor \<Rightarrow> 'd \<times> 'd) \<Rightarrow> string
     \<Rightarrow> (string \<times> libData) list option \<Rightarrow> warning list \<Rightarrow> 'c UFOAnchor list
     \<Rightarrow> error + ((string \<times> 'd NamedAnchor) list \<times> warning list)" where
  "collectGlyphAnchors ctxKey getAnchor glyphName objectLibs log anchors =
     foldE (collectAnchor ctxKey getAnchor glyphName objectLibs) ([], log) anchors"

text \<open>
  \<^verbatim>\<open>include = gdefClasses.base | gdefClasses.ligature | gdefClasses.mark\<close> when the
  base class is defined; the union of a set with \<^verbatim>\<open>None\<close> is a type error.
\<close>

definition gdefInclude :: "GDEFGlyphClasses \<Rightarrow> error + string list option" where
  "gdefInclude gdefClasses =
     (case gdef_base gdefClasses of
        None \<Rightarrow> Inr None
      | Some base \<Rightarrow>
          (case gdef_ligature gdefClasses of
             None \<Rightarrow> Inl TypeError
           | Some ligature \<Rightarrow>
               (case gdef_mark gdefClasses of
                  None \<Rightarrow> Inl TypeError
                | Some mark \<Rightarrow> Inr (Some (base @ ligature @ mark)))))"

definition collectGlyph ::
  "string \<Rightarrow> (string \<Rightarrow> string \<Rightarrow> 'c UFOAnchor \<Rightarrow> 'd \<times> 'd) \<Rightarrow> string list option
     \<Rightarrow> (string \<times> 'd NamedAnchor list) list \<times> warning list \<Rightarrow> string \<times> 'c UFOGlyph
     \<Rightarrow> error + ((string \<times> 'd NamedAnchor list) list \<times> warning list)" where
  "collectGlyph ctxKey getAnchor include st entry =
     (case st of (result, log) \<Rightarrow>
      case entry of (glyphName, glyph) \<Rightarrow>
        (if (case include of None \<Rightarrow> False | Some inc \<Rightarrow> glyphName \<notin> set inc)
         then Inr (result, log)
         else
           (case collectGlyphAnchors ctxKey getAnchor glyphName (g_objectLibs glyph) log
                   (g_anchors glyph) of
              Inl e \<Rightarrow> Inl e
            | Inr (anchorDict, log') \<Rightarrow>
                Inr (if anchorDict \<noteq> []
                     then AList.update glyphName (map snd anchorDict) result
                     else result, log'))))"

text \<open>
  \<^verbatim>\<open>_getAnchorLists\<close> (the leading underscore of a Python name is dropped throughout).
  The result is the ordered dictionary from a glyph name to its named anchors,
  with the warnings logged on the way.
\<close>

definition getAnchorLists ::
  "string \<Rightarrow> (string \<Rightarrow> string \<Rightarrow> 'c UFOAnchor \<Rightarrow> 'd \<times> 'd) \<Rightarrow> GDEFGlyphClasses
     \<Rightarrow> (string \<times> 'c UFOGlyph) list
     \<Rightarrow> error + ((string \<times> 'd NamedAnchor list) list \<times> warning list)" where
  "getAnchorLists ctxKey getAnchor gdefClasses glyphSet =
     (case gdefInclude gdefClasses of
        Inl e \<Rightarrow> Inl e
      | Inr include \<Rightarrow> foldE (collectGlyph ctxKey getAnchor include) ([], []) glyphSet)"

subsection \<open>Anchor pairs\<close>

text \<open>The set \<^verbatim>\<open>markAnchorNames\<close> of \<^verbatim>\<open>_getAnchorPairs\<close>, as a list.\<close>

definition markAnchorNames :: "(string \<times> 'c NamedAnchor list) list \<Rightarrow> string list" where
  "markAnchorNames anchorLists =
     concat (map (\<lambda>anchors. map a_name (filter a_isMark anchors)) (map snd anchorLists))"

definition anchorPairStep ::
  "string list \<Rightarrow> (string \<times> string) list \<Rightarrow> 'c NamedAnchor \<Rightarrow> (string \<times> string) list" where
  "anchorPairStep names anchorPairs anchor =
     (if a_isMark anchor then anchorPairs
      else if markAnchorName anchor \<in> set names
           then AList.update (a_name anchor) (markAnchorName anchor) anchorPairs
           else anchorPairs)"

definition getAnchorPairs :: "(string \<times> 'c NamedAnchor list) list \<Rightarrow> (string \<times> string) list" where
  "getAnchorPairs anchorLists =
     foldl (anchorPairStep (markAnchorNames anchorLists)) [] (concat (map snd anchorLists))"

text \<open>
  \<^verbatim>\<open>shouldContinue\<close>. The method of the base class is not in this file; its result is
  the parameter \<open>superShouldContinue\<close>.
\<close>

definition shouldContinue :: "(string \<times> string) list \<Rightarrow> bool \<Rightarrow> bool" where
  "shouldContinue anchorPairs superShouldContinue =
     (if anchorPairs = [] then False else superShouldContinue)"

text \<open>
  Modelled from the spec: the driver that runs a feature writer
  (\<^verbatim>\<open>BaseFeatureWriter.write\<close>) is not among the sources. The specification says: "If
  no contract pairs exist at all, the entire feature-generation process is skipped
  (no "mark" etc. features are produced) - this is a valid empty-result outcome,
  not an error", and the writer produces "a boolean/void signal of nothing generated
  when no attachment contracts exist at all". The driver asks \<^verbatim>\<open>shouldContinue\<close>; when
  the answer is no it returns \<^verbatim>\<open>False\<close> and no feature, otherwise it returns what
  the generation \<^verbatim>\<open>_write\<close> gives (the parameter \<open>generated\<close>: an error, or the
  features by tag).
\<close>

definition writeFeatures ::
  "(string \<times> string) list \<Rightarrow> bool \<Rightarrow> error + (string \<times> 'f) list
     \<Rightarrow> error + (bool \<times> (string \<times> 'f) list)" where
  "writeFeatures anchorPairs superShouldContinue generated =
     (if shouldContinue anchorPairs superShouldContinue then
        (case generated of Inl e \<Rightarrow> Inl e | Inr features \<Rightarrow> Inr (features \<noteq> [], features))
      else Inr (False, []))"

text \<open>An anchor of the font without a name: the name is \<^verbatim>\<open>None\<close> or empty.\<close>

definition isUnnamed :: "'c UFOAnchor \<Rightarrow> bool" where
  "isUnnamed anchor = (ufo_name anchor = None \<or> ufo_name anchor = Some [])"

subsection \<open>Mark class definitions\<close>






subsection \<open>Attachments\<close>

text \<open>
  The classes \<^verbatim>\<open>MarkToBasePos\<close>, \<^verbatim>\<open>MarkToMarkPos\<close> and \<^verbatim>\<open>MarkToLigaPos\<close>: the name of
  the glyph with its marks, which are a list of named anchors or, for a ligature, a
  list of such lists, one per component.
\<close>

datatype 'c MarkPos =
    MarkToBasePos string "'c NamedAnchor list"
  | MarkToMarkPos string "'c NamedAnchor list"
  | MarkToLigaPos string "'c NamedAnchor list list"

subsection \<open>Mark-to-ligature attachments\<close>

text \<open>
  The body of the loop over the anchors of one glyph in
  \<^verbatim>\<open>_makeMarkToLigaAttachments\<close>; the state is the dictionary \<^verbatim>\<open>componentAnchors\<close> from a
  component number to the anchors collected for it.
\<close>

definition componentStep ::
  "(nat \<times> 'c NamedAnchor list) list \<Rightarrow> 'c NamedAnchor
     \<Rightarrow> error + (nat \<times> 'c NamedAnchor list) list" where
  "componentStep componentAnchors anchor =
     (if a_markClass anchor = None \<and> a_key anchor \<noteq> [] then Inr componentAnchors
      else if a_isMark anchor then Inl AssertionError
      else
        (case a_number anchor of
           None \<Rightarrow> Inr componentAnchors
         | Some number \<Rightarrow>
             (if a_isContextual anchor then Inr componentAnchors
              else if a_key anchor = [] then Inr (AList.update number [] componentAnchors)
              else Inr (AList.update number
                          ((case map_of componentAnchors number of
                              None \<Rightarrow> [] | Some collected \<Rightarrow> collected) @ [anchor])
                          componentAnchors))))"

text \<open>
  The list \<^verbatim>\<open>ligatureMarks\<close>: the entry of each number from 1 to the largest key, the
  empty list for a number without an entry.
\<close>

definition ligatureMarks :: "(nat \<times> 'c NamedAnchor list) list \<Rightarrow> 'c NamedAnchor list list" where
  "ligatureMarks componentAnchors =
     map (\<lambda>number. case map_of componentAnchors number of
                      None \<Rightarrow> [] | Some collected \<Rightarrow> collected)
         [1 ..< Max (set (map fst componentAnchors)) + 1]"

definition ligaStep ::
  "string list \<Rightarrow> string list option \<Rightarrow> 'c MarkPos list \<Rightarrow> string \<times> 'c NamedAnchor list
     \<Rightarrow> error + 'c MarkPos list" where
  "ligaStep markGlyphNames ligatureClass result entry =
     (case entry of (glyphName, anchors) \<Rightarrow>
        (if glyphName \<in> set markGlyphNames
            \<or> (case ligatureClass of None \<Rightarrow> False | Some lc \<Rightarrow> glyphName \<notin> set lc)
         then Inr result
         else
           (case foldE componentStep [] anchors of
              Inl e \<Rightarrow> Inl e
            | Inr componentAnchors \<Rightarrow>
                (if componentAnchors = [] then Inr result
                 else Inr (result @ [MarkToLigaPos glyphName (ligatureMarks componentAnchors)])))))"

definition makeMarkToLigaAttachments ::
  "string list \<Rightarrow> string list option \<Rightarrow> (string \<times> 'c NamedAnchor list) list
     \<Rightarrow> error + 'c MarkPos list" where
  "makeMarkToLigaAttachments markGlyphNames ligatureClass anchorLists =
     foldE (ligaStep markGlyphNames ligatureClass) [] anchorLists"

text \<open>
  The anchors that the loop collects for the component \<open>n\<close>: an anchor with a key
  and a mark class, and the anchor with an empty key that stands for no anchor.
  Neither is contextual.
\<close>

definition keyedFor :: "nat \<Rightarrow> 'c NamedAnchor \<Rightarrow> bool" where
  "keyedFor n anchor =
     (a_number anchor = Some n \<and> a_key anchor \<noteq> [] \<and> a_markClass anchor \<noteq> None
      \<and> \<not> a_isContextual anchor)"

definition nullFor :: "nat \<Rightarrow> 'c NamedAnchor \<Rightarrow> bool" where
  "nullFor n anchor =
     (a_number anchor = Some n \<and> a_key anchor = [] \<and> \<not> a_isContextual anchor)"

subsection \<open>Filtering an attachment\<close>

text \<open>A comprehension whose body may raise: the first error ends it.\<close>

fun mapE :: "('a \<Rightarrow> error + 'b) \<Rightarrow> 'a list \<Rightarrow> error + 'b list" where
  "mapE f [] = Inr []"
| "mapE f (x # xs) =
     (case f x of
        Inl e \<Rightarrow> Inl e
      | Inr y \<Rightarrow> (case mapE f xs of Inl e \<Rightarrow> Inl e | Inr ys \<Rightarrow> Inr (y # ys)))"

fun filterE :: "('a \<Rightarrow> error + bool) \<Rightarrow> 'a list \<Rightarrow> error + 'a list" where
  "filterE p [] = Inr []"
| "filterE p (x # xs) =
     (case p x of
        Inl e \<Rightarrow> Inl e
      | Inr b \<Rightarrow>
          (case filterE p xs of Inl e \<Rightarrow> Inl e | Inr ys \<Rightarrow> Inr (if b then x # ys else ys)))"

text \<open>\<^verbatim>\<open>anchor.markClass\<close> read for an attribute: \<^verbatim>\<open>None\<close> has none.\<close>

definition anchorMarkClass :: "'c NamedAnchor \<Rightarrow> error + MarkClass" where
  "anchorMarkClass anchor =
     (case a_markClass anchor of None \<Rightarrow> Inl AttributeError | Some markClass \<Rightarrow> Inr markClass)"

text \<open>
  The marks of an attachment in the order in which they are visited; those of a
  ligature component after component.
\<close>

definition posAnchors :: "'c MarkPos \<Rightarrow> 'c NamedAnchor list" where
  "posAnchors pos =
     (case pos of
        MarkToBasePos name marks \<Rightarrow> marks
      | MarkToMarkPos name marks \<Rightarrow> marks
      | MarkToLigaPos name marks \<Rightarrow> concat marks)"

text \<open>
  The method \<^verbatim>\<open>filter\<close> with \<^verbatim>\<open>_filterMarks\<close> of each class. A named anchor is a truthy
  object, so \<^verbatim>\<open>any(marks)\<close> asks for one mark, and for a ligature for one component
  that is not empty. The result is the filtered attachment or \<^verbatim>\<open>None\<close>.
\<close>

definition filterPos ::
  "('c NamedAnchor \<Rightarrow> error + bool) \<Rightarrow> 'c MarkPos \<Rightarrow> error + 'c MarkPos option" where
  "filterPos include pos =
     (case pos of
        MarkToBasePos name marks \<Rightarrow>
          (case filterE include marks of
             Inl e \<Rightarrow> Inl e
           | Inr ms \<Rightarrow> Inr (if ms \<noteq> [] then Some (MarkToBasePos name ms) else None))
      | MarkToMarkPos name marks \<Rightarrow>
          (case filterE include marks of
             Inl e \<Rightarrow> Inl e
           | Inr ms \<Rightarrow> Inr (if ms \<noteq> [] then Some (MarkToMarkPos name ms) else None))
      | MarkToLigaPos name marks \<Rightarrow>
          (case mapE (filterE include) marks of
             Inl e \<Rightarrow> Inl e
           | Inr ms \<Rightarrow>
               Inr (if (\<exists>component \<in> set ms. component \<noteq> [])
                    then Some (MarkToLigaPos name ms) else None)))"

subsection \<open>Mark glyphs and their mark classes\<close>

text \<open>
  \<^verbatim>\<open>getMarkGlyphToMarkClasses\<close>: a \<^verbatim>\<open>defaultdict(set)\<close> from a mark glyph to the names of
  the mark classes that hold it. A Python set is a list without repetition here.
\<close>

definition addGlyphClass ::
  "string \<Rightarrow> (string \<times> string list) list \<Rightarrow> string \<Rightarrow> (string \<times> string list) list" where
  "addGlyphClass name d markGlyph =
     AList.update markGlyph
       (List.insert name (case map_of d markGlyph of None \<Rightarrow> [] | Some s \<Rightarrow> s)) d"

definition glyphClassesStep ::
  "(string \<times> string list) list \<Rightarrow> 'c NamedAnchor \<Rightarrow> error + (string \<times> string list) list" where
  "glyphClassesStep d namedAnchor =
     (case anchorMarkClass namedAnchor of
        Inl e \<Rightarrow> Inl e
      | Inr markClass \<Rightarrow>
          Inr (foldl (addGlyphClass (mc_name markClass)) d (map fst (mc_glyphs markClass))))"

definition getMarkGlyphToMarkClasses ::
  "'c MarkPos \<Rightarrow> error + (string \<times> string list) list" where
  "getMarkGlyphToMarkClasses pos = foldE glyphClassesStep [] (posAnchors pos)"

text \<open>
  The first loop of \<^verbatim>\<open>_groupAttachments\<close>:
  \<^verbatim>\<open>markGlyphToMarkClasses[markGlyph].update(markClasses)\<close> for every attachment.
\<close>

definition mergeGlyphClasses ::
  "(string \<times> string list) list \<Rightarrow> string \<times> string list \<Rightarrow> (string \<times> string list) list" where
  "mergeGlyphClasses d item =
     (case item of (markGlyph, markClasses) \<Rightarrow>
        AList.update markGlyph
          (List.union markClasses (case map_of d markGlyph of None \<Rightarrow> [] | Some s \<Rightarrow> s)) d)"

definition collectGlyphClasses ::
  "'c MarkPos list \<Rightarrow> error + (string \<times> string list) list" where
  "collectGlyphClasses attachments =
     foldE (\<lambda>d attachment.
              case getMarkGlyphToMarkClasses attachment of
                Inl e \<Rightarrow> Inl e
              | Inr items \<Rightarrow> Inr (foldl mergeGlyphClasses d items))
           [] attachments"

subsection \<open>Grouping the mark classes\<close>

text \<open>\<^verbatim>\<open>itertools.combinations(xs, 2)\<close>.\<close>

fun combinations2 :: "'a list \<Rightarrow> ('a \<times> 'a) list" where
  "combinations2 [] = []"
| "combinations2 (x # xs) = map (Pair x) xs @ combinations2 xs"

text \<open>
  \<^verbatim>\<open>adjacency[markClass].add(other)\<close> and \<^verbatim>\<open>adjacency[other].add(markClass)\<close>; both keys are
  in the dictionary, which has a key for every mark class.
\<close>

definition addEdge ::
  "(string \<times> string list) list \<Rightarrow> string \<times> string \<Rightarrow> (string \<times> string list) list" where
  "addEdge adjacency edge =
     (case edge of (markClass, other) \<Rightarrow>
        AList.map_entry other (List.insert markClass)
          (AList.map_entry markClass (List.insert other) adjacency))"

definition conflictGraph :: "(string \<times> string list) list \<Rightarrow> (string \<times> string list) list" where
  "conflictGraph markGlyphToMarkClasses =
     foldl addEdge
       (foldl (\<lambda>adjacency markClass. AList.update markClass [] adjacency) []
          (concat (map snd markGlyphToMarkClasses)))
       (concat (map (\<lambda>item. combinations2 (snd item)) markGlyphToMarkClasses))"

definition markClassPrefix :: string where
  "markClassPrefix = ''MC''"

definition anchorSortKey :: "(string \<times> int) list" where
  "anchorSortKey = [(''_bottom'', - 2), (''_top'', - 1)]"

text \<open>\<^verbatim>\<open>_removeClassPrefix\<close>, with its assertion.\<close>

definition removeClassPrefix :: "string \<Rightarrow> error + string" where
  "removeClassPrefix markClass =
     (if startswith markClass markClassPrefix
      then Inr (drop (length markClassPrefix) markClass) else Inl AssertionError)"

text \<open>
  The key by which the groups are sorted: minus the least sort key of the classes
  of the group, then the group. \<^verbatim>\<open>min\<close> of an empty sequence is an error.
\<close>

definition groupSortKey :: "string list \<Rightarrow> error + (int \<times> string list)" where
  "groupSortKey markClassGroup =
     (case mapE (\<lambda>markClass.
                   case removeClassPrefix markClass of
                     Inl e \<Rightarrow> Inl e
                   | Inr k \<Rightarrow> Inr (case map_of anchorSortKey k of None \<Rightarrow> 0 | Some v \<Rightarrow> v))
                markClassGroup of
        Inl e \<Rightarrow> Inl e
      | Inr [] \<Rightarrow> Inl ValueError_emptySequence
      | Inr (v # vs) \<Rightarrow> Inr (- foldl min v vs, markClassGroup))"

text \<open>
  \<^verbatim>\<open>_groupMarkClasses\<close>: the conflict graph is coloured, each group is sorted, and the
  groups are sorted by their keys; \<^verbatim>\<open>sorted\<close> computes the key of every group first.
\<close>

definition groupMarkClasses :: "(string \<times> string list) list \<Rightarrow> error + string list list" where
  "groupMarkClasses markGlyphToMarkClasses =
     (let colorGroups = colorGraph (conflictGraph markGlyphToMarkClasses);
          groups = map sort colorGroups
      in case mapE groupSortKey groups of
           Inl e \<Rightarrow> Inl e
         | Inr keys \<Rightarrow> Inr (map snd (sort_key fst (zip keys groups))))"

subsection \<open>Grouping the attachments\<close>

text \<open>The closure \<^verbatim>\<open>include\<close> of \<^verbatim>\<open>_groupAttachments\<close>.\<close>

definition includeAnchor :: "string list \<Rightarrow> 'c NamedAnchor \<Rightarrow> error + bool" where
  "includeAnchor markClasses anchor =
     (case anchorMarkClass anchor of
        Inl e \<Rightarrow> Inl e
      | Inr markClass \<Rightarrow> Inr (mc_name markClass \<in> set markClasses))"

text \<open>One lookup: the attachments filtered, those that are left.\<close>

definition makeLookup :: "string list \<Rightarrow> 'c MarkPos list \<Rightarrow> error + 'c MarkPos list" where
  "makeLookup markClasses attachments =
     (case mapE (filterPos (includeAnchor markClasses)) attachments of
        Inl e \<Rightarrow> Inl e
      | Inr filtered \<Rightarrow> Inr (List.map_filter (\<lambda>filteredAttachment. filteredAttachment) filtered))"

text \<open>
  \<^verbatim>\<open>_groupAttachments\<close>. The option \<^verbatim>\<open>groupMarkClasses\<close> and the dictionary
  \<^verbatim>\<open>self.context.markClasses\<close>, from an anchor key to its mark class, are arguments.
  Without the option the items of the dictionary are sorted; its keys differ, so
  the order is that of the keys.
\<close>

definition groupAttachments ::
  "bool \<Rightarrow> (string \<times> MarkClass) list \<Rightarrow> 'c MarkPos list \<Rightarrow> error + 'c MarkPos list list" where
  "groupAttachments groupMarkClassesOption contextMarkClasses attachments =
     (case (if groupMarkClassesOption then
              (case collectGlyphClasses attachments of
                 Inl e \<Rightarrow> Inl e
               | Inr markGlyphToMarkClasses \<Rightarrow> groupMarkClasses markGlyphToMarkClasses)
            else Inr (map (\<lambda>item. [mc_name (snd item)]) (sort_key fst contextMarkClasses))) of
        Inl e \<Rightarrow> Inl e
      | Inr groupedMarkClasses \<Rightarrow>
          mapE (\<lambda>markClasses. makeLookup markClasses attachments) groupedMarkClasses)"

text \<open>
  The invariant of a lookup: two marks of the lookup whose mark classes hold a
  common glyph have mark classes of the same name.
\<close>

definition lookupAnchors :: "'c MarkPos list \<Rightarrow> 'c NamedAnchor list" where
  "lookupAnchors lookup = concat (map posAnchors lookup)"

definition lookupInvariant :: "'c MarkPos list \<Rightarrow> bool" where
  "lookupInvariant lookup =
     (\<forall>a1 \<in> set (lookupAnchors lookup). \<forall>a2 \<in> set (lookupAnchors lookup).
        (case a_markClass a1 of
           None \<Rightarrow> True
         | Some mc1 \<Rightarrow>
             (case a_markClass a2 of
                None \<Rightarrow> True
              | Some mc2 \<Rightarrow>
                  (\<exists>glyph \<in> fst ` set (mc_glyphs mc1). glyph \<in> fst ` set (mc_glyphs mc2))
                    \<longrightarrow> mc_name mc1 = mc_name mc2)))"

text \<open>
  Two notions for the dictionaries of this section: the dictionary holds the class
  name under the glyph, and the neighbours of a vertex of an adjacency dictionary.
\<close>

definition covers :: "(string \<times> string list) list \<Rightarrow> string \<Rightarrow> string \<Rightarrow> bool" where
  "covers d markGlyph name = (\<exists>s. map_of d markGlyph = Some s \<and> name \<in> set s)"

definition neighbours :: "('v \<times> 'v list) list \<Rightarrow> 'v \<Rightarrow> 'v set" where
  "neighbours adjacency u = (case map_of adjacency u of None \<Rightarrow> {} | Some l \<Rightarrow> set l)"

text \<open>
  A lookup as the specification describes it: each attachment filtered down to the
  anchors whose mark class is in the group, the attachments left with nothing
  discarded. It has no error; \<^verbatim>\<open>makeLookup\<close>, which follows the code, is compared
  with it.
\<close>

definition keepAnchor :: "string list \<Rightarrow> 'c NamedAnchor \<Rightarrow> bool" where
  "keepAnchor markClasses anchor =
     (case a_markClass anchor of
        None \<Rightarrow> False
      | Some markClass \<Rightarrow> mc_name markClass \<in> set markClasses)"

definition restrictPos :: "string list \<Rightarrow> 'c MarkPos \<Rightarrow> 'c MarkPos option" where
  "restrictPos markClasses pos =
     (case pos of
        MarkToBasePos name marks \<Rightarrow>
          (if filter (keepAnchor markClasses) marks \<noteq> []
           then Some (MarkToBasePos name (filter (keepAnchor markClasses) marks)) else None)
      | MarkToMarkPos name marks \<Rightarrow>
          (if filter (keepAnchor markClasses) marks \<noteq> []
           then Some (MarkToMarkPos name (filter (keepAnchor markClasses) marks)) else None)
      | MarkToLigaPos name marks \<Rightarrow>
          (if (\<exists>component \<in> set marks. filter (keepAnchor markClasses) component \<noteq> [])
           then Some (MarkToLigaPos name (map (filter (keepAnchor markClasses)) marks))
           else None))"

definition restrictLookup :: "string list \<Rightarrow> 'c MarkPos list \<Rightarrow> 'c MarkPos list" where
  "restrictLookup markClasses attachments =
     List.map_filter (restrictPos markClasses) attachments"

section \<open>Verification\<close>

subsection \<open>Reference inputs of the parser\<close>

text \<open>
  Claim C1. With the default prefix and separator, \<^verbatim>\<open>"top_1"\<close> parses to a non-mark
  anchor with key \<^verbatim>\<open>"top"\<close> and component number 1, \<^verbatim>\<open>"_top"\<close> parses to a mark anchor
  with key \<^verbatim>\<open>"top"\<close> and no component number, and \<^verbatim>\<open>"_top_1"\<close> and \<^verbatim>\<open>"_bottom_2"\<close> raise
  the error of a numbered mark anchor, whatever the lib data is.
\<close>

theorem parseAnchorName_reference_inputs:
  "parseAnchorName ctxKey ''top_1'' MARK_PREFIX LIGA_SEPARATOR None libData
     = Inr (False, ''top'', Some 1, False, False)
   \<and> parseAnchorName ctxKey ''_top'' MARK_PREFIX LIGA_SEPARATOR None libData
     = Inr (True, ''top'', None, False, False)
   \<and> parseAnchorName ctxKey ''_top_1'' MARK_PREFIX LIGA_SEPARATOR None libData
     = Inl (ValueError_markAnchorNumbered ''_top_1'')
   \<and> parseAnchorName ctxKey ''_bottom_2'' MARK_PREFIX LIGA_SEPARATOR None libData
     = Inl (ValueError_markAnchorNumbered ''_bottom_2'')"
  by (simp add: parseAnchorName_def parseLigaNumber_def LIGA_NUM_RE_match_def newline_def
      isdigit_def rstrip_def endswith_def startswith_def int_of_digits_def digit_value_def
      isalpha_def MARK_PREFIX_def LIGA_SEPARATOR_def)

lemmas parse_defs =
  parseAnchorName_def parseLigaNumber_def LIGA_NUM_RE_match_def newline_def
  isdigit_def rstrip_def endswith_def startswith_def int_of_digits_def digit_value_def
  isalpha_def MARK_PREFIX_def LIGA_SEPARATOR_def hasContextKey_def

lemma parseAnchorName_isIgnorable:
  assumes "parseAnchorName ctxKey n mp ls ig ld = Inr (m, k, num, c, i)"
  shows "i = (k \<noteq> [] \<and> \<not> isalpha (hd k))"
  using assms unfolding parseAnchorName_def Let_def
  by (auto split: list.splits sum.splits if_splits prod.splits)

lemma parseAnchorName_mark_unnumbered:
  assumes "parseAnchorName ctxKey n mp ls ig ld = Inr (m, k, num, c, i)"
  shows "m \<longrightarrow> num = None \<and> k \<noteq> []"
  using assms unfolding parseAnchorName_def Let_def
  by (auto split: list.splits sum.splits if_splits prod.splits)

text \<open>
  Claim C9, as the code has it. The name \<^verbatim>\<open>"_3"\<close> never raises: the mark test needs a
  non-empty key once the component suffix is removed, so the result is a non-mark
  anchor with empty key and component 3, and it is not ignorable. The error of an
  empty mark key is raised for the bare prefix \<^verbatim>\<open>"_"\<close>. In every result the flag
  \<^verbatim>\<open>isIgnorable\<close> holds exactly when the key is non-empty and its first character is
  not alphabetic.
\<close>

theorem parseAnchorName_null_anchor_and_ignorable:
  "parseAnchorName ctxKey ''_3'' MARK_PREFIX LIGA_SEPARATOR None libData
     = Inr (False, [], Some 3, False, False)
   \<and> parseAnchorName ctxKey ''_'' MARK_PREFIX LIGA_SEPARATOR None libData
     = Inl (ValueError_markAnchorKeyNil ''_'')
   \<and> (parseAnchorName ctxKey n mp ls ig ld = Inr (m, k, num, c, i)
        \<longrightarrow> i = (k \<noteq> [] \<and> \<not> isalpha (hd k)))"
proof -
  have "parseAnchorName ctxKey ''_3'' MARK_PREFIX LIGA_SEPARATOR None libData
     = Inr (False, [], Some 3, False, False)"
    by (simp add: parse_defs)
  moreover have "parseAnchorName ctxKey ''_'' MARK_PREFIX LIGA_SEPARATOR None libData
     = Inl (ValueError_markAnchorKeyNil ''_'')"
    by (simp add: parse_defs)
  ultimately show ?thesis
    using parseAnchorName_isIgnorable by blast
qed

theorem parseAnchorName_null_anchor_and_ignorable_witness:
  "parseAnchorName ''ctx'' ''1up'' MARK_PREFIX LIGA_SEPARATOR None None
     = Inr (False, ''1up'', None, False, True)
   \<and> True = (''1up'' \<noteq> [] \<and> \<not> isalpha (hd ''1up''))"
proof -
  have h: "parseAnchorName ''ctx'' ''1up'' MARK_PREFIX LIGA_SEPARATOR None None
     = Inr (False, ''1up'', None, False, True)"
    by (simp add: parse_defs)
  from parseAnchorName_null_anchor_and_ignorable
    [where n = "''1up''" and mp = MARK_PREFIX and ls = LIGA_SEPARATOR and ig = None
       and ld = None and ctxKey = "''ctx''" and m = False and k = "''1up''" and num = None
       and c = False and i = True]
  have "True = (''1up'' \<noteq> [] \<and> \<not> isalpha (hd ''1up''))"
    using h by blast
  with h show ?thesis by blast
qed

text \<open>
  The claim C9 as the specification words it fails: \<^verbatim>\<open>"_3"\<close> parses without an
  error, and its empty key is not ignorable.
\<close>

theorem parseAnchorName_underscore_3_counterexample:
  "parseAnchorName ''ctx'' ''_3'' MARK_PREFIX LIGA_SEPARATOR None None
     = Inr (False, [], Some 3, False, False)"
  by (simp add: parse_defs)

text \<open>
  Claim C10, as the code has it. A named anchor that was constructed has a
  component number of at least 1 when it has one, and a name whose number is 0 is
  refused; a mark anchor has no component number; the key is non-empty unless the
  anchor carries a component number, and an anchor with an empty key is not
  ignorable.
\<close>

theorem NamedAnchor_init_invariant:
  "(NamedAnchor_init ctxKey name x y markClass libData = Inr a
      \<longrightarrow> (\<forall>n. a_number a = Some n \<longrightarrow> 1 \<le> n)
          \<and> (a_isMark a \<longrightarrow> a_number a = None)
          \<and> (a_key a = [] \<longrightarrow> a_number a \<noteq> None \<and> \<not> a_isIgnorable a))
   \<and> (parseAnchorName ctxKey name MARK_PREFIX LIGA_SEPARATOR None libData
         = Inr (m, k, Some 0, c, i)
      \<longrightarrow> NamedAnchor_init ctxKey name x y markClass libData = Inl ValueError_componentIndex)"
proof -
  have "(\<forall>n. a_number a = Some n \<longrightarrow> 1 \<le> n) \<and> (a_isMark a \<longrightarrow> a_number a = None)
          \<and> (a_key a = [] \<longrightarrow> a_number a \<noteq> None \<and> \<not> a_isIgnorable a)"
    if ok: "NamedAnchor_init ctxKey name x y markClass libData = Inr a"
  proof -
    obtain m' k' num' c' i' where
      p: "parseAnchorName ctxKey name MARK_PREFIX LIGA_SEPARATOR None libData
            = Inr (m', k', num', c', i')"
      using ok unfolding NamedAnchor_init_def by (auto split: sum.splits)
    from ok p have a: "a_isMark a = m'" "a_key a = k'" "a_number a = num'"
      "a_isIgnorable a = i'"
      and num: "\<forall>n. num' = Some n \<longrightarrow> 1 \<le> n" and key: "num' = None \<longrightarrow> k' \<noteq> []"
      unfolding NamedAnchor_init_def by (auto split: option.splits if_splits)
    have "m' \<longrightarrow> num' = None"
      using parseAnchorName_mark_unnumbered p by blast
    moreover have "i' = (k' \<noteq> [] \<and> \<not> isalpha (hd k'))"
      using parseAnchorName_isIgnorable p by blast
    ultimately show ?thesis using a num key by auto
  qed
  moreover have "NamedAnchor_init ctxKey name x y markClass libData
      = Inl ValueError_componentIndex"
    if "parseAnchorName ctxKey name MARK_PREFIX LIGA_SEPARATOR None libData
         = Inr (m, k, Some 0, c, i)"
    using that unfolding NamedAnchor_init_def by simp
  ultimately show ?thesis by blast
qed

theorem NamedAnchor_init_invariant_witness:
  "NamedAnchor_init ''ctx'' ''top_2'' (50::int) 500 None None
     = Inr \<lparr>a_name = ''top_2'', a_x = 50, a_y = 500, a_isMark = False, a_key = ''top'',
            a_number = Some 2, a_markClass = None, a_isContextual = False,
            a_isIgnorable = False, a_libData = None\<rparr>
   \<and> parseAnchorName ''ctx'' ''top_0'' MARK_PREFIX LIGA_SEPARATOR None None
     = Inr (False, ''top'', Some 0, False, False)
   \<and> NamedAnchor_init ''ctx'' ''top_0'' (50::int) 500 None None
     = Inl ValueError_componentIndex"
proof -
  have p: "parseAnchorName ''ctx'' ''top_0'' MARK_PREFIX LIGA_SEPARATOR None None
     = Inr (False, ''top'', Some 0, False, False)"
    by (simp add: parse_defs)
  have "NamedAnchor_init ''ctx'' ''top_0'' (50::int) 500 None None
     = Inl ValueError_componentIndex"
    using p NamedAnchor_init_invariant
      [where ctxKey = "''ctx''" and name = "''top_0''" and libData = None and m = False
         and k = "''top''" and c = False and i = False and x = 50 and y = 500
         and markClass = None]
    by blast
  moreover have "NamedAnchor_init ''ctx'' ''top_2'' (50::int) 500 None None
     = Inr \<lparr>a_name = ''top_2'', a_x = 50, a_y = 500, a_isMark = False, a_key = ''top'',
            a_number = Some 2, a_markClass = None, a_isContextual = False,
            a_isIgnorable = False, a_libData = None\<rparr>"
    by (simp add: NamedAnchor_init_def parse_defs)
  ultimately show ?thesis using p by blast
qed

text \<open>
  The claim C10 as the specification words it fails: the anchor \<^verbatim>\<open>"_3"\<close> is
  constructed, its key is empty and it is not ignorable.
\<close>

theorem NamedAnchor_init_empty_key_counterexample:
  "NamedAnchor_init ''ctx'' ''_3'' (0::int) 0 None None
     = Inr \<lparr>a_name = ''_3'', a_x = 0, a_y = 0, a_isMark = False, a_key = [],
            a_number = Some 3, a_markClass = None, a_isContextual = False,
            a_isIgnorable = False, a_libData = None\<rparr>"
  by (simp add: NamedAnchor_init_def parse_defs)

subsection \<open>Greedy colouring\<close>

lemma firstAvailable_loop_notin: "firstAvailable_loop cs n \<notin> set cs"
proof (induction cs n rule: firstAvailable_loop.induct)
  case (1 colorSet count)
  show ?case
  proof (cases "count \<in> set colorSet")
    case True
    then have "firstAvailable_loop colorSet count = firstAvailable_loop colorSet (count + 1)"
      by (subst firstAvailable_loop.simps) simp
    then show ?thesis using 1 True by simp
  next
    case False
    then have "firstAvailable_loop colorSet count = count"
      by (subst firstAvailable_loop.simps) simp
    then show ?thesis using False by simp
  qed
qed

lemma firstAvailable_notin: "firstAvailable cs \<notin> set cs"
  by (simp add: firstAvailable_def firstAvailable_loop_notin)

lemma firstAvailable_Nil: "firstAvailable [] = 0"
  by (simp add: firstAvailable_def firstAvailable_loop.simps)

lemma update_fresh: "k \<notin> fst ` set al \<Longrightarrow> AList.update k v al = al @ [(k, v)]"
  by (induction al) auto

lemma map_insort_key: "map f (insort_key f x ys) = insort (f x) (map f ys)"
  by (induction ys) auto

lemma map_sort_key: "map f (sort_key f xs) = sort (map f xs)"
  by (induction xs) (simp_all add: map_insort_key)

lemma sorted_items_distinct:
  "distinct (map fst adj) \<Longrightarrow> distinct (map fst (sort_key fst adj))"
  by (simp add: distinct_map)

lemma colorStep_keys:
  "map fst (colorStep C (w, nw)) = (if w \<in> set (map fst C) then map fst C else map fst C @ [w])"
  by (simp add: colorStep_def update_keys)

lemma colors_keys:
  "distinct (map fst its) \<Longrightarrow> map fst (foldl colorStep [] its) = map fst its"
proof (induction its rule: rev_induct)
  case Nil
  then show ?case by simp
next
  case (snoc it its)
  obtain w nw where it: "it = (w, nw)" by (cases it)
  from snoc.prems have d: "distinct (map fst its)" and w: "w \<notin> set (map fst its)"
    by (auto simp: it)
  show ?case using snoc.IH[OF d] w by (simp add: it colorStep_keys)
qed

text \<open>Two adjacent vertices never get the same colour.\<close>

lemma colors_proper:
  assumes "distinct (map fst its)"
    and "\<forall>(u, nu) \<in> set its. \<forall>(v, nv) \<in> set its. v \<in> set nu \<longrightarrow> u \<in> set nv"
    and "(u, nu) \<in> set its" and "(v, nv) \<in> set its" and "u \<noteq> v" and "v \<in> set nu"
  shows "map_of (foldl colorStep [] its) u \<noteq> map_of (foldl colorStep [] its) v"
  using assms
proof (induction its arbitrary: u nu v nv rule: rev_induct)
  case Nil
  then show ?case by simp
next
  case (snoc it its)
  obtain w nw where it: "it = (w, nw)" by (cases it)
  let ?C = "foldl colorStep [] its"
  let ?c = "firstAvailable (List.map_filter (map_of ?C) nw)"
  from snoc.prems(1) have d: "distinct (map fst its)" and w: "w \<notin> fst ` set its"
    by (auto simp: it)
  have keys: "map fst ?C = map fst its" using colors_keys[OF d] .
  have sym: "\<forall>(u, nu) \<in> set its. \<forall>(v, nv) \<in> set its. v \<in> set nu \<longrightarrow> u \<in> set nv"
    using snoc.prems(2) by auto
  have C': "map_of (colorStep ?C it) = (map_of ?C)(w \<mapsto> ?c)"
    by (simp add: it colorStep_def update_conv')
  have step: "foldl colorStep [] (its @ [it]) = colorStep ?C it" by simp
  have old: "map_of ?C z \<noteq> Some ?c" if "(z, nz) \<in> set its" "z \<in> set nw" for z nz
  proof
    assume "map_of ?C z = Some ?c"
    with that(2) have "?c \<in> set (List.map_filter (map_of ?C) nw)"
      unfolding List.map_filter_def set_map set_filter by (intro image_eqI[where x = z]) auto
    then show False using firstAvailable_notin by blast
  qed
  consider (both) "(u, nu) \<in> set its" "(v, nv) \<in> set its"
    | (ul) "(u, nu) = (w, nw)" "(v, nv) \<in> set its"
    | (vl) "(u, nu) \<in> set its" "(v, nv) = (w, nw)"
    | (same) "(u, nu) = (w, nw)" "(v, nv) = (w, nw)"
    using snoc.prems(3,4) by (auto simp: it)
  then show ?case
  proof cases
    case both
    then have "u \<noteq> w" "v \<noteq> w" using w by force+
    moreover have "map_of ?C u \<noteq> map_of ?C v"
      using snoc.IH[OF d sym both snoc.prems(5,6)] .
    ultimately show ?thesis unfolding step C' by simp
  next
    case ul
    then have "v \<noteq> w" using w by force
    moreover have "map_of ?C v \<noteq> Some ?c" using old[OF ul(2)] snoc.prems(6) ul(1) by simp
    ultimately show ?thesis using ul(1) unfolding step C' by simp
  next
    case vl
    then have "u \<noteq> w" using w by force
    have "u \<in> set nw" using snoc.prems(2,3,4,6) vl by (auto simp: it)
    then have "map_of ?C u \<noteq> Some ?c" using old[OF vl(1)] by simp
    then show ?thesis using vl(2) \<open>u \<noteq> w\<close> unfolding step C' by simp
  next
    case same
    then show ?thesis using snoc.prems(5) by simp
  qed
qed

lemma colors_edgeless:
  assumes "distinct (map fst its)" and "\<forall>(u, nu) \<in> set its. nu = []"
  shows "foldl colorStep [] its = map (\<lambda>it. (fst it, 0)) its"
  using assms
proof (induction its rule: rev_induct)
  case Nil
  then show ?case by simp
next
  case (snoc it its)
  from snoc.prems have it: "it = (fst it, [])" and w: "fst it \<notin> fst ` set its"
    and d: "distinct (map fst its)" and e: "\<forall>(u, nu) \<in> set its. nu = []"
    by (auto simp: prod_eq_iff)
  have C: "foldl colorStep [] its = map (\<lambda>it. (fst it, 0)) its" using snoc.IH[OF d e] .
  have "fst it \<notin> fst ` set (map (\<lambda>it. (fst it, 0::nat)) its)" using w by force
  then have "AList.update (fst it) 0 (map (\<lambda>it. (fst it, 0::nat)) its)
      = map (\<lambda>it. (fst it, 0)) its @ [(fst it, 0)]"
    by (rule update_fresh)
  moreover have "colorStep (map (\<lambda>it. (fst it, 0)) its) it
      = AList.update (fst it) 0 (map (\<lambda>it. (fst it, 0::nat)) its)"
    by (subst it) (simp add: colorStep_def firstAvailable_Nil del: map_map)
  ultimately show ?case by (simp add: C)
qed

text \<open>The groups: one per colour, each holding the nodes of that colour in order.\<close>

lemma groups_step:
  "foldl groupStep [] (xs @ [(n, c)]) =
     AList.update c ((case map_of (foldl groupStep [] xs) c of None \<Rightarrow> [] | Some g \<Rightarrow> g) @ [n])
       (foldl groupStep [] xs)"
  by (simp add: groupStep_def)

lemma groups_distinct_keys: "distinct (map fst (foldl groupStep [] xs))"
proof (induction xs rule: rev_induct)
  case Nil
  then show ?case by simp
next
  case (snoc x xs)
  obtain n c where x: "x = (n, c)" by (cases x)
  show ?case unfolding x groups_step using snoc.IH by (rule distinct_update)
qed

lemma groups_content:
  "map_of (foldl groupStep [] xs) c =
     (if c \<in> snd ` set xs then Some (map fst (filter (\<lambda>p. snd p = c) xs)) else None)"
proof (induction xs arbitrary: c rule: rev_induct)
  case Nil
  then show ?case by simp
next
  case (snoc x xs)
  obtain n c0 where x: "x = (n, c0)" by (cases x)
  let ?G = "foldl groupStep [] xs"
  have g0: "(case map_of ?G c0 of None \<Rightarrow> [] | Some g \<Rightarrow> g) = map fst (filter (\<lambda>p. snd p = c0) xs)"
  proof (cases "c0 \<in> snd ` set xs")
    case True
    then show ?thesis using snoc.IH[where c = c0] by simp
  next
    case False
    then have "filter (\<lambda>p. snd p = c0) xs = []" by (auto simp: filter_empty_conv)
    then show ?thesis using snoc.IH[where c = c0] False by simp
  qed
  show ?case
  proof (cases "c = c0")
    case True
    then show ?thesis unfolding x groups_step update_conv' g0 by simp
  next
    case False
    then show ?thesis unfolding x groups_step update_conv' using snoc.IH by auto
  qed
qed

lemma groups_member:
  assumes "g \<in> set (map snd (foldl groupStep [] xs))"
  obtains c where "c \<in> snd ` set xs" and "g = map fst (filter (\<lambda>p. snd p = c) xs)"
proof -
  from assms obtain c where cg: "(c, g) \<in> set (foldl groupStep [] xs)" by auto
  then have "map_of (foldl groupStep [] xs) c = Some g"
    using groups_distinct_keys[of xs] by simp
  then have "c \<in> snd ` set xs" "g = map fst (filter (\<lambda>p. snd p = c) xs)"
    unfolding groups_content by (auto split: if_splits)
  then show ?thesis using that by blast
qed

lemma groups_of_color:
  assumes "c \<in> snd ` set xs"
  shows "map fst (filter (\<lambda>p. snd p = c) xs) \<in> set (map snd (foldl groupStep [] xs))"
proof -
  have "map_of (foldl groupStep [] xs) c = Some (map fst (filter (\<lambda>p. snd p = c) xs))"
    using assms by (simp add: groups_content)
  then have "(c, map fst (filter (\<lambda>p. snd p = c) xs)) \<in> set (foldl groupStep [] xs)"
    by (rule map_of_SomeD)
  then show ?thesis by force
qed

lemma groups_nonempty: "[] \<notin> set (map snd (foldl groupStep [] xs))"
proof
  assume "[] \<in> set (map snd (foldl groupStep [] xs))"
  then obtain c where "c \<in> snd ` set xs" and e: "[] = map fst (filter (\<lambda>p. snd p = c) xs)"
    by (rule groups_member)
  then obtain p where "p \<in> set xs" "snd p = c" by auto
  then have "filter (\<lambda>p. snd p = c) xs \<noteq> []" by (auto simp: filter_empty_conv)
  with e show False by simp
qed

lemma groups_set: "set (concat (map snd (foldl groupStep [] xs))) = fst ` set xs"
proof (intro set_eqI iffI)
  fix n
  assume "n \<in> set (concat (map snd (foldl groupStep [] xs)))"
  then obtain g where g: "g \<in> set (map snd (foldl groupStep [] xs))" and n: "n \<in> set g"
    by auto
  from g obtain c where "g = map fst (filter (\<lambda>p. snd p = c) xs)" by (rule groups_member)
  with n show "n \<in> fst ` set xs" by auto
next
  fix n
  assume "n \<in> fst ` set xs"
  then obtain c where nc: "(n, c) \<in> set xs" by auto
  then have "c \<in> snd ` set xs" by force
  then have "map fst (filter (\<lambda>p. snd p = c) xs) \<in> set (map snd (foldl groupStep [] xs))"
    by (rule groups_of_color)
  moreover have "n \<in> set (map fst (filter (\<lambda>p. snd p = c) xs))" using nc by force
  ultimately show "n \<in> set (concat (map snd (foldl groupStep [] xs)))"
    unfolding set_concat by blast
qed

lemma groups_same_color:
  assumes "distinct (map fst xs)" and "g \<in> set (map snd (foldl groupStep [] xs))"
    and "u \<in> set g" and "v \<in> set g"
  shows "map_of xs u = map_of xs v \<and> map_of xs u \<noteq> None"
proof -
  from assms(2) obtain c where g: "g = map fst (filter (\<lambda>p. snd p = c) xs)"
    by (rule groups_member)
  from assms(3,4) have "(u, c) \<in> set xs" "(v, c) \<in> set xs" unfolding g by auto
  then have "map_of xs u = Some c" "map_of xs v = Some c" using assms(1) by simp_all
  then show ?thesis by simp
qed

lemma groups_distinct_concat:
  assumes d: "distinct (map fst xs)"
  shows "distinct (concat (map snd (foldl groupStep [] xs)))"
proof (rule distinct_concat)
  let ?G = "foldl groupStep [] xs"
  have key: "c = c'" if "(n, c) \<in> set xs" "(n, c') \<in> set xs" for n c c'
    using that d by (meson eq_key_imp_eq_value)
  show "distinct (map snd ?G)"
  proof -
    have "distinct ?G" using groups_distinct_keys[of xs] by (simp add: distinct_map)
    moreover have "inj_on snd (set ?G)"
    proof (rule inj_onI)
      fix p q assume p: "p \<in> set ?G" and q: "q \<in> set ?G" and e: "snd p = snd q"
      have mp: "map_of ?G (fst p) = Some (snd p)" "map_of ?G (fst q) = Some (snd q)"
        using p q groups_distinct_keys[of xs] by simp_all
      then have gp: "snd p = map fst (filter (\<lambda>r. snd r = fst p) xs)" "fst p \<in> snd ` set xs"
        and gq: "snd q = map fst (filter (\<lambda>r. snd r = fst q) xs)"
        unfolding groups_content by (auto split: if_splits)
      from gp(2) obtain n where n: "(n, fst p) \<in> set xs" by force
      then have "n \<in> set (snd p)" by (subst gp(1)) force
      then have "n \<in> set (snd q)" using e by simp
      then have "(n, fst q) \<in> set xs" by (subst (asm) gq) auto
      then have "fst p = fst q" using n key by blast
      then show "p = q" using e by (simp add: prod_eq_iff)
    qed
    ultimately show ?thesis by (simp add: distinct_map)
  qed
next
  fix g assume "g \<in> set (map snd (foldl groupStep [] xs))"
  then obtain c where "g = map fst (filter (\<lambda>p. snd p = c) xs)" by (rule groups_member)
  then show "distinct g" using d by (simp add: distinct_map_filter)
next
  fix g h
  assume g: "g \<in> set (map snd (foldl groupStep [] xs))"
    and h: "h \<in> set (map snd (foldl groupStep [] xs))" and ne: "g \<noteq> h"
  from g obtain c where gc: "g = map fst (filter (\<lambda>p. snd p = c) xs)" by (rule groups_member)
  from h obtain c' where hc: "h = map fst (filter (\<lambda>p. snd p = c') xs)" by (rule groups_member)
  have "c \<noteq> c'" using ne gc hc by blast
  show "set g \<inter> set h = {}"
  proof (rule ccontr)
    assume "set g \<inter> set h \<noteq> {}"
    then obtain n where "n \<in> set g" "n \<in> set h" by blast
    then have "(n, c) \<in> set xs" "(n, c') \<in> set xs" unfolding gc hc by auto
    then have "c = c'" using d by (meson eq_key_imp_eq_value)
    with \<open>c \<noteq> c'\<close> show False by simp
  qed
qed

lemma groups_length: "length (foldl groupStep [] xs) = card (snd ` set xs)"
proof -
  have "fst ` set (foldl groupStep [] xs) = snd ` set xs"
  proof (induction xs rule: rev_induct)
    case Nil
    then show ?case by simp
  next
    case (snoc x xs)
    obtain n c where x: "x = (n, c)" by (cases x)
    show ?case unfolding x groups_step dom_update using snoc.IH by auto
  qed
  then have "card (snd ` set xs) = card (set (map fst (foldl groupStep [] xs)))" by simp
  also have "\<dots> = length (map fst (foldl groupStep [] xs))"
    using groups_distinct_keys[of xs] by (rule distinct_card)
  finally show ?thesis by simp
qed

lemma groups_all_zero:
  "ns \<noteq> [] \<Longrightarrow> foldl groupStep [] (map (\<lambda>n. (n, 0)) ns) = [(0, ns)]"
proof (induction ns rule: rev_induct)
  case Nil
  then show ?case by simp
next
  case (snoc n ms)
  show ?case
  proof (cases "ms = []")
    case True
    then show ?thesis by (simp add: groupStep_def)
  next
    case False
    then show ?thesis using snoc.IH by (simp add: groupStep_def)
  qed
qed

text \<open>The colouring of a dictionary, read off the lemmas above.\<close>

lemma colorGraph_groups:
  "colorGraph adjacency
     = map snd (foldl groupStep [] (foldl colorStep [] (sort_key fst adjacency)))"
  by (simp add: colorGraph_def)

lemma colorGraph_color_keys:
  assumes "distinct (map fst adjacency)"
  shows "map fst (foldl colorStep [] (sort_key fst adjacency)) = map fst (sort_key fst adjacency)"
  using assms by (intro colors_keys sorted_items_distinct)

lemma colorGraph_set:
  assumes "distinct (map fst adjacency)"
  shows "set (concat (colorGraph adjacency)) = fst ` set adjacency"
proof -
  let ?C = "foldl colorStep [] (sort_key fst adjacency)"
  have "fst ` set ?C = set (map fst ?C)" by simp
  also have "\<dots> = set (map fst (sort_key fst adjacency))"
    by (simp only: colorGraph_color_keys[OF assms])
  finally have "fst ` set ?C = fst ` set adjacency" by simp
  then show ?thesis unfolding colorGraph_groups groups_set .
qed

lemma colorGraph_distinct:
  assumes "distinct (map fst adjacency)"
  shows "distinct (concat (colorGraph adjacency))"
proof -
  have "distinct (map fst (foldl colorStep [] (sort_key fst adjacency)))"
    using assms by (simp add: colorGraph_color_keys sorted_items_distinct)
  then show ?thesis unfolding colorGraph_groups by (rule groups_distinct_concat)
qed

lemma colorGraph_nonempty: "[] \<notin> set (colorGraph adjacency)"
  unfolding colorGraph_groups by (rule groups_nonempty)

lemma colorGraph_conflict_free:
  assumes dict: "distinct (map fst adjacency)" and sym: "symmetric_adj adjacency"
    and g: "g \<in> set (colorGraph adjacency)" and u: "u \<in> set g" and v: "v \<in> set g"
    and ne: "u \<noteq> v"
  shows "\<not> adjacent adjacency u v"
proof
  let ?its = "sort_key fst adjacency"
  let ?C = "foldl colorStep [] ?its"
  assume "adjacent adjacency u v"
  then obtain nu where unu: "(u, nu) \<in> set ?its" and vnu: "v \<in> set nu"
    by (auto simp: adjacent_def)
  have d: "distinct (map fst ?its)" using dict by (rule sorted_items_distinct)
  have dC: "distinct (map fst ?C)" using d by (simp add: colors_keys)
  have sym': "\<forall>(u, nu) \<in> set ?its. \<forall>(v, nv) \<in> set ?its. v \<in> set nu \<longrightarrow> u \<in> set nv"
    using sym unfolding symmetric_adj_def by simp
  have "v \<in> set (concat (colorGraph adjacency))" using g v by auto
  then obtain nv where vnv: "(v, nv) \<in> set ?its" unfolding colorGraph_set[OF dict] by auto
  have "map_of ?C u \<noteq> map_of ?C v"
    using d sym' unu vnv ne vnu by (rule colors_proper)
  moreover have "map_of ?C u = map_of ?C v"
    using groups_same_color[OF dC g[unfolded colorGraph_groups] u v] by simp
  ultimately show False by simp
qed

lemma colorGraph_edgeless:
  assumes dict: "distinct (map fst adjacency)" and e: "edgeless adjacency"
    and ne: "adjacency \<noteq> []"
  shows "colorGraph adjacency = [sort (map fst adjacency)]"
proof -
  let ?its = "sort_key fst adjacency"
  let ?C = "foldl colorStep [] ?its"
  have d: "distinct (map fst ?its)" using dict by (rule sorted_items_distinct)
  have "\<forall>(u, nu) \<in> set ?its. nu = []" using e by (simp add: edgeless_def)
  with d have C: "?C = map (\<lambda>it. (fst it, 0)) ?its" by (rule colors_edgeless)
  have "?C = map (\<lambda>n. (n, 0)) (map fst ?its)" unfolding C by simp
  moreover have "map fst ?its \<noteq> []"
    using ne by (metis length_sort length_0_conv map_is_Nil_conv)
  ultimately have "foldl groupStep [] ?C = [(0, map fst ?its)]"
    using groups_all_zero by metis
  moreover have "map fst ?its = sort (map fst adjacency)"
    by (rule map_sort_key)
  ultimately show ?thesis unfolding colorGraph_groups by simp
qed

lemma colorGraph_complete:
  assumes dict: "distinct (map fst adjacency)" and c: "complete_adj adjacency"
  shows "length (colorGraph adjacency) = length adjacency"
proof -
  let ?its = "sort_key fst adjacency"
  let ?C = "foldl colorStep [] ?its"
  have d: "distinct (map fst ?its)" using dict by (rule sorted_items_distinct)
  have keys: "map fst ?C = map fst ?its" using d by (rule colors_keys)
  have dC: "distinct (map fst ?C)" using d keys by simp
  have comp: "\<forall>(u, nu) \<in> set ?its. \<forall>(v, nv) \<in> set ?its. u \<noteq> v \<longrightarrow> v \<in> set nu"
    using c unfolding complete_adj_def by simp
  have sym2: "\<forall>(u, nu) \<in> set ?its. \<forall>(v, nv) \<in> set ?its. v \<in> set nu \<longrightarrow> u \<in> set nv"
  proof (clarify)
    fix u nu v nv
    assume a: "(u, nu) \<in> set ?its" "(v, nv) \<in> set ?its" "v \<in> set nu"
    show "u \<in> set nv"
    proof (cases "u = v")
      case True
      then have "nu = nv" using a(1,2) d by (meson eq_key_imp_eq_value)
      then show ?thesis using a(3) True by simp
    next
      case False
      then show ?thesis using comp a(1,2) by fastforce
    qed
  qed
  have "inj_on snd (set ?C)"
  proof (rule inj_onI)
    fix p q assume p: "p \<in> set ?C" and q: "q \<in> set ?C" and e: "snd p = snd q"
    have mp: "map_of ?C (fst p) = Some (snd p)" "map_of ?C (fst q) = Some (snd q)"
      using p q dC by simp_all
    have "fst p = fst q"
    proof (rule ccontr)
      assume ne: "fst p \<noteq> fst q"
      have "fst p \<in> set (map fst ?its)" "fst q \<in> set (map fst ?its)"
        using p q unfolding keys[symmetric] by auto
      then obtain nu nv where k: "(fst p, nu) \<in> set ?its" "(fst q, nv) \<in> set ?its"
        by auto
      then have "fst q \<in> set nu" using comp ne by fastforce
      with d sym2 k ne have "map_of ?C (fst p) \<noteq> map_of ?C (fst q)"
        by (rule colors_proper)
      then show False using mp e by simp
    qed
    then show "p = q" using e by (simp add: prod_eq_iff)
  qed
  then have "card (snd ` set ?C) = card (set ?C)" by (rule card_image)
  also have "\<dots> = length ?C" using dC by (simp add: distinct_card distinct_map)
  also have "\<dots> = length adjacency"
    using arg_cong[OF keys, of length] by simp
  finally show ?thesis unfolding colorGraph_groups by (simp add: groups_length)
qed

text \<open>
  Claim C2. For an adjacency dictionary (one entry per vertex) that is symmetric,
  the groups of \<^verbatim>\<open>colorGraph\<close> partition the vertices: together they hold every
  vertex once, and no group is empty. No group holds two distinct vertices that
  are adjacent. When no vertex has a neighbour, all vertices are in one group, in
  increasing order. When every two vertices are adjacent, there are as many
  groups as vertices.
\<close>

theorem colorGraph_partition_conflict_free:
  assumes "distinct (map fst adjacency)" and "symmetric_adj adjacency"
  shows "set (concat (colorGraph adjacency)) = fst ` set adjacency
       \<and> distinct (concat (colorGraph adjacency))
       \<and> [] \<notin> set (colorGraph adjacency)
       \<and> (\<forall>g \<in> set (colorGraph adjacency). \<forall>u \<in> set g. \<forall>v \<in> set g.
            u \<noteq> v \<longrightarrow> \<not> adjacent adjacency u v)
       \<and> (edgeless adjacency \<and> adjacency \<noteq> []
            \<longrightarrow> colorGraph adjacency = [sort (map fst adjacency)])
       \<and> (complete_adj adjacency \<longrightarrow> length (colorGraph adjacency) = length adjacency)"
proof (intro conjI ballI impI)
  show "set (concat (colorGraph adjacency)) = fst ` set adjacency"
    using assms(1) by (rule colorGraph_set)
  show "distinct (concat (colorGraph adjacency))"
    using assms(1) by (rule colorGraph_distinct)
  show "[] \<notin> set (colorGraph adjacency)"
    by (rule colorGraph_nonempty)
  show "\<not> adjacent adjacency u v"
    if "g \<in> set (colorGraph adjacency)" "u \<in> set g" "v \<in> set g" "u \<noteq> v" for g u v
    using assms that by (rule colorGraph_conflict_free)
  show "colorGraph adjacency = [sort (map fst adjacency)]"
    if "edgeless adjacency \<and> adjacency \<noteq> []"
    using assms(1) that by (intro colorGraph_edgeless) simp_all
  show "length (colorGraph adjacency) = length adjacency" if "complete_adj adjacency"
    using assms(1) that by (rule colorGraph_complete)
qed

theorem colorGraph_partition_conflict_free_witness:
  "colorGraph [(''b'', [''a'']), (''a'', [''b'', ''c'']), (''c'', [''a'']), (''d'', [])]
     = [[''a'', ''d''], [''b'', ''c'']]
   \<and> \<not> adjacent [(''b'', [''a'']), (''a'', [''b'', ''c'']), (''c'', [''a'']), (''d'', [])] ''a'' ''d''
   \<and> \<not> adjacent [(''b'', [''a'']), (''a'', [''b'', ''c'']), (''c'', [''a'']), (''d'', [])] ''b'' ''c''
   \<and> colorGraph [(''y'', []), (''x'', []), (''z'', [])] = [[''x'', ''y'', ''z'']]
   \<and> length (colorGraph [(''c'', [''b'', ''a'']), (''a'', [''b'', ''c'']), (''b'', [''a'', ''c''])]) = 3"
proof -
  define A where "A = [(''b'', [''a'']), (''a'', [''b'', ''c'']), (''c'', [''a'']), (''d'', [])]"
  define E where "E = ([(''y'', []), (''x'', []), (''z'', [])] :: (string \<times> string list) list)"
  define K where "K = [(''c'', [''b'', ''a'']), (''a'', [''b'', ''c'']), (''b'', [''a'', ''c''])]"
  have dA: "distinct (map fst A)" and sA: "symmetric_adj A"
    by (simp_all add: A_def symmetric_adj_def)
  have dE: "distinct (map fst E)" and sE: "symmetric_adj E" and eE: "edgeless E \<and> E \<noteq> []"
    by (simp_all add: E_def symmetric_adj_def edgeless_def)
  have dK: "distinct (map fst K)" and sK: "symmetric_adj K" and cK: "complete_adj K"
    by (simp_all add: K_def symmetric_adj_def complete_adj_def)
  note tA = colorGraph_partition_conflict_free[OF dA sA]
  note tE = colorGraph_partition_conflict_free[OF dE sE]
  note tK = colorGraph_partition_conflict_free[OF dK sK]
  have 1: "colorGraph A = [[''a'', ''d''], [''b'', ''c'']]"
    unfolding A_def by code_simp
  have "\<forall>g \<in> set (colorGraph A). \<forall>u \<in> set g. \<forall>v \<in> set g. u \<noteq> v \<longrightarrow> \<not> adjacent A u v"
    using tA by blast
  then have 2: "\<not> adjacent A ''a'' ''d''" "\<not> adjacent A ''b'' ''c''"
    unfolding 1 by simp_all
  have "colorGraph E = [sort (map fst E)]"
    using tE eE by blast
  moreover have "sort (map fst E) = [''x'', ''y'', ''z'']"
    unfolding E_def by code_simp
  ultimately have 3: "colorGraph E = [[''x'', ''y'', ''z'']]" by simp
  have "length (colorGraph K) = length K"
    using tK cK by blast
  moreover have "length K = 3" by (simp add: K_def)
  ultimately have 4: "length (colorGraph K) = 3" by (rule trans)
  show ?thesis using 1 2 3 4 unfolding A_def E_def K_def by (intro conjI)
qed

subsection \<open>Anchor pairs and the skipped generation\<close>

lemma anchorPairs_fold_empty:
  "foldl (anchorPairStep names) acc as = []
     \<longleftrightarrow> acc = [] \<and> (\<forall>a \<in> set as. a_isMark a \<or> markAnchorName a \<notin> set names)"
  by (induction as arbitrary: acc) (auto simp: anchorPairStep_def)

text \<open>
  Claim C7. The anchor pairs are empty exactly when no non-mark anchor has its mark
  counterpart (the mark prefix followed by its key) among the names of the mark
  anchors of the glyph set. With empty anchor pairs \<^verbatim>\<open>shouldContinue\<close> answers no,
  whatever the base class would answer, and the driver returns the signal that
  nothing was generated, with no feature and without an error.
\<close>

theorem no_anchor_pairs_skips_generation:
  "(getAnchorPairs anchorLists = []
      \<longleftrightarrow> (\<forall>a \<in> set (concat (map snd anchorLists)).
             \<not> a_isMark a \<longrightarrow> markAnchorName a \<notin> set (markAnchorNames anchorLists)))
   \<and> (getAnchorPairs anchorLists = []
      \<longrightarrow> shouldContinue (getAnchorPairs anchorLists) superShouldContinue = False
        \<and> writeFeatures (getAnchorPairs anchorLists) superShouldContinue generated
            = Inr (False, []))"
proof (intro conjI impI)
  show "getAnchorPairs anchorLists = []
      \<longleftrightarrow> (\<forall>a \<in> set (concat (map snd anchorLists)).
             \<not> a_isMark a \<longrightarrow> markAnchorName a \<notin> set (markAnchorNames anchorLists))"
    unfolding getAnchorPairs_def anchorPairs_fold_empty by blast
next
  assume "getAnchorPairs anchorLists = []"
  then show "shouldContinue (getAnchorPairs anchorLists) superShouldContinue = False"
    by (simp add: shouldContinue_def)
next
  assume "getAnchorPairs anchorLists = []"
  then show "writeFeatures (getAnchorPairs anchorLists) superShouldContinue generated
      = Inr (False, [])"
    by (simp add: writeFeatures_def shouldContinue_def)
qed

theorem no_anchor_pairs_skips_generation_witness:
  "getAnchorPairs
     [(''acutecomb'',
       [\<lparr>a_name = ''_top'', a_x = 50::int, a_y = 0, a_isMark = True, a_key = ''top'',
         a_number = None, a_markClass = None, a_isContextual = False,
         a_isIgnorable = False, a_libData = None\<rparr>]),
      (''a'',
       [\<lparr>a_name = ''bottom'', a_x = 100, a_y = 0, a_isMark = False, a_key = ''bottom'',
         a_number = None, a_markClass = None, a_isContextual = False,
         a_isIgnorable = False, a_libData = None\<rparr>])] = []
   \<and> writeFeatures
       (getAnchorPairs
         [(''acutecomb'',
           [\<lparr>a_name = ''_top'', a_x = 50::int, a_y = 0, a_isMark = True, a_key = ''top'',
             a_number = None, a_markClass = None, a_isContextual = False,
             a_isIgnorable = False, a_libData = None\<rparr>]),
          (''a'',
           [\<lparr>a_name = ''bottom'', a_x = 100, a_y = 0, a_isMark = False, a_key = ''bottom'',
             a_number = None, a_markClass = None, a_isContextual = False,
             a_isIgnorable = False, a_libData = None\<rparr>])])
       True (Inr [(''mark'', ())]) = Inr (False, [])"
proof -
  define L where "L =
     [(''acutecomb'',
       [\<lparr>a_name = ''_top'', a_x = 50::int, a_y = 0, a_isMark = True, a_key = ''top'',
         a_number = None, a_markClass = None, a_isContextual = False,
         a_isIgnorable = False, a_libData = None\<rparr>]),
      (''a'',
       [\<lparr>a_name = ''bottom'', a_x = 100, a_y = 0, a_isMark = False, a_key = ''bottom'',
         a_number = None, a_markClass = None, a_isContextual = False,
         a_isIgnorable = False, a_libData = None\<rparr>])]"
  have h: "\<forall>a \<in> set (concat (map snd L)).
      \<not> a_isMark a \<longrightarrow> markAnchorName a \<notin> set (markAnchorNames L)"
    by (simp add: L_def markAnchorNames_def markAnchorName_def MARK_PREFIX_def)
  note t = no_anchor_pairs_skips_generation
    [where anchorLists = L and superShouldContinue = True
       and generated = "Inr [(''mark'', ())]"]
  from t h have e: "getAnchorPairs L = []" by blast
  with t have "writeFeatures (getAnchorPairs L) True (Inr [(''mark'', ())]) = Inr (False, [])"
    by blast
  with e show ?thesis unfolding L_def by (intro conjI)
qed

subsection \<open>Duplicate and unnamed anchors\<close>

lemma foldE_append_Inr:
  "foldE f s (xs @ ys) = Inr t \<Longrightarrow> \<exists>s'. foldE f s xs = Inr s' \<and> foldE f s' ys = Inr t"
  by (induction xs arbitrary: s) (auto split: sum.splits)

lemma set_update_subset: "set (AList.update k v al) \<subseteq> insert (k, v) (set al)"
  by (induction al) auto

lemma filter_key_singleton:
  "distinct (map fst al) \<Longrightarrow> map_of al k = Some v \<Longrightarrow> filter (\<lambda>p. fst p = k) al = [(k, v)]"
proof (induction al)
  case Nil
  then show ?case by simp
next
  case (Cons p al)
  show ?case
  proof (cases "fst p = k")
    case True
    then have "k \<notin> fst ` set al" using Cons.prems(1) by auto
    then have "\<forall>q \<in> set al. fst q \<noteq> k" by force
    then have "filter (\<lambda>p. fst p = k) al = []" by (simp add: filter_empty_conv)
    then show ?thesis using True Cons.prems(2) by (cases p) simp
  next
    case False
    then show ?thesis using Cons by (cases p) auto
  qed
qed

lemma NamedAnchor_init_name:
  "NamedAnchor_init ctxKey name x y mc ld = Inr a \<Longrightarrow> a_name a = name \<and> name \<noteq> []"
  unfolding NamedAnchor_init_def parseAnchorName_def
  by (auto split: sum.splits if_splits list.splits)

lemma buildNamedAnchor_name:
  "buildNamedAnchor ctxKey getA g libs n a = Inr na \<Longrightarrow> a_name na = n \<and> n \<noteq> []"
  unfolding buildNamedAnchor_def by (auto split: prod.splits dest: NamedAnchor_init_name)

lemma collectAnchor_Inr:
  assumes "collectAnchor ctxKey getA g libs (d, l) a = Inr (d', l')"
  shows "(isUnnamed a \<and> d' = d \<and> l' = l @ [Warning_unnamedAnchor g])
       \<or> (\<exists>n na. ufo_name a = Some n \<and> n \<noteq> []
             \<and> buildNamedAnchor ctxKey getA g libs n a = Inr na
             \<and> l' = (if n \<in> fst ` set d then l @ [Warning_duplicateAnchor n g] else l)
             \<and> d' = (if a_isIgnorable na then d else AList.update n na d))"
  using assms unfolding collectAnchor_def isUnnamed_def Let_def
  by (auto split: option.splits if_splits sum.splits)

lemma collectAnchor_stored:
  assumes "collectAnchor ctxKey getA g libs (d, l) a = Inr (d', l')"
    and "ufo_name a = Some n" and "buildNamedAnchor ctxKey getA g libs n a = Inr na"
    and "\<not> a_isIgnorable na"
  shows "d' = AList.update n na d
       \<and> l' = (if n \<in> fst ` set d then l @ [Warning_duplicateAnchor n g] else l)"
  using assms buildNamedAnchor_name[OF assms(3)]
  unfolding collectAnchor_def Let_def by (auto split: if_splits)

lemma run_distinct:
  "foldE (collectAnchor ctxKey getA g libs) (d, l) as = Inr (d', l')
     \<Longrightarrow> distinct (map fst d) \<Longrightarrow> distinct (map fst d')"
proof (induction as arbitrary: d l)
  case Nil
  then show ?case by simp
next
  case (Cons a as)
  from Cons.prems(1) obtain d1 l1 where
    s: "collectAnchor ctxKey getA g libs (d, l) a = Inr (d1, l1)"
    and r: "foldE (collectAnchor ctxKey getA g libs) (d1, l1) as = Inr (d', l')"
    by (auto split: sum.splits)
  have "distinct (map fst d1)"
    using collectAnchor_Inr[OF s] Cons.prems(2) by (auto simp: distinct_update)
  then show ?case using Cons.IH[OF r] by simp
qed

lemma foldE_Cons_Inr:
  "foldE f s (x # xs) = Inr t \<Longrightarrow> \<exists>s'. f s x = Inr s' \<and> foldE f s' xs = Inr t"
  by (simp split: sum.splits)

lemma collectAnchor_dict:
  assumes "collectAnchor ctxKey getA g libs (d, l) a = Inr (d', l')"
  shows "d' = d \<or> (\<exists>n na. ufo_name a = Some n
            \<and> buildNamedAnchor ctxKey getA g libs n a = Inr na \<and> d' = AList.update n na d)"
proof -
  from collectAnchor_Inr[OF assms] show ?thesis
  proof (elim disjE exE conjE)
    assume "d' = d"
    then show ?thesis by simp
  next
    fix n na
    assume h: "ufo_name a = Some n" "buildNamedAnchor ctxKey getA g libs n a = Inr na"
      "d' = (if a_isIgnorable na then d else AList.update n na d)"
    show ?thesis
    proof (cases "a_isIgnorable na")
      case True
      then show ?thesis using h(3) by simp
    next
      case False
      then have "d' = AList.update n na d" using h(3) by simp
      then show ?thesis using h(1,2) by blast
    qed
  qed
qed

lemma collectAnchor_log:
  assumes "collectAnchor ctxKey getA g libs (d, l) a = Inr (d', l')"
  shows "set l \<subseteq> set l'"
proof -
  from collectAnchor_Inr[OF assms] show ?thesis
  proof (elim disjE exE conjE)
    assume "l' = l @ [Warning_unnamedAnchor g]"
    then show ?thesis by auto
  next
    fix n
    assume "l' = (if n \<in> fst ` set d then l @ [Warning_duplicateAnchor n g] else l)"
    then show ?thesis by (cases "n \<in> fst ` set d") auto
  qed
qed

lemma run_grows:
  "foldE (collectAnchor ctxKey getA g libs) (d, l) as = Inr (d', l')
     \<Longrightarrow> set l \<subseteq> set l' \<and> fst ` set d \<subseteq> fst ` set d'"
proof (induction as arbitrary: d l)
  case Nil
  then show ?case by simp
next
  case (Cons a as)
  from foldE_Cons_Inr[OF Cons.prems] obtain d1 l1 where
    s: "collectAnchor ctxKey getA g libs (d, l) a = Inr (d1, l1)"
    and r: "foldE (collectAnchor ctxKey getA g libs) (d1, l1) as = Inr (d', l')"
    by auto
  have 1: "set l \<subseteq> set l1" using s by (rule collectAnchor_log)
  have 2: "fst ` set d \<subseteq> fst ` set d1"
  proof -
    from collectAnchor_dict[OF s] show ?thesis
    proof (elim disjE exE conjE)
      assume "d1 = d"
      then show ?thesis by simp
    next
      fix n na assume "d1 = AList.update n na d"
      then have "fst ` set d1 = {n} \<union> fst ` set d" by (simp only: dom_update)
      then show ?thesis by blast
    qed
  qed
  from Cons.IH[OF r] have "set l1 \<subseteq> set l'" "fst ` set d1 \<subseteq> fst ` set d'" by simp_all
  with 1 2 show ?case by blast
qed

lemma run_untouched:
  "foldE (collectAnchor ctxKey getA g libs) (d, l) as = Inr (d', l')
     \<Longrightarrow> \<forall>b \<in> set as. ufo_name b \<noteq> Some n \<Longrightarrow> map_of d' n = map_of d n"
proof (induction as arbitrary: d l)
  case Nil
  then show ?case by simp
next
  case (Cons a as)
  from Cons.prems(1) obtain d1 l1 where
    s: "collectAnchor ctxKey getA g libs (d, l) a = Inr (d1, l1)"
    and r: "foldE (collectAnchor ctxKey getA g libs) (d1, l1) as = Inr (d', l')"
    by (auto split: sum.splits)
  have "map_of d1 n = map_of d n"
    using collectAnchor_Inr[OF s] Cons.prems(2) by (auto simp: update_conv')
  then show ?case using Cons.IH[OF r] Cons.prems(2) by simp
qed

lemma run_entries:
  "foldE (collectAnchor ctxKey getA g libs) (d, l) as = Inr (d', l')
     \<Longrightarrow> \<forall>(k, na) \<in> set d. k \<noteq> [] \<and> a_name na = k
     \<Longrightarrow> \<forall>(k, na) \<in> set d'. k \<noteq> [] \<and> a_name na = k"
proof (induction as arbitrary: d l)
  case Nil
  then show ?case by simp
next
  case (Cons a as)
  from Cons.prems(1) obtain d1 l1 where
    s: "collectAnchor ctxKey getA g libs (d, l) a = Inr (d1, l1)"
    and r: "foldE (collectAnchor ctxKey getA g libs) (d1, l1) as = Inr (d', l')"
    by (auto split: sum.splits)
  have "\<forall>(k, na) \<in> set d1. k \<noteq> [] \<and> a_name na = k"
  proof -
    from collectAnchor_Inr[OF s] consider "d1 = d"
      | n na where "buildNamedAnchor ctxKey getA g libs n a = Inr na" "d1 = AList.update n na d"
      by (auto split: if_splits)
    then show ?thesis
    proof cases
      case 1
      then show ?thesis using Cons.prems(2) by simp
    next
      case 2
      have "set d1 \<subseteq> insert (n, na) (set d)" unfolding 2(2) by (rule set_update_subset)
      then show ?thesis using Cons.prems(2) buildNamedAnchor_name[OF 2(1)] by auto
    qed
  qed
  then show ?case using Cons.IH[OF r] by simp
qed

lemma run_unnamed:
  "foldE (collectAnchor ctxKey getA g libs) (d, l) as = Inr (d', l')
     \<Longrightarrow> b \<in> set as \<Longrightarrow> isUnnamed b \<Longrightarrow> Warning_unnamedAnchor g \<in> set l'"
proof (induction as arbitrary: d l)
  case Nil
  then show ?case by simp
next
  case (Cons a as)
  from Cons.prems(1) obtain d1 l1 where
    s: "collectAnchor ctxKey getA g libs (d, l) a = Inr (d1, l1)"
    and r: "foldE (collectAnchor ctxKey getA g libs) (d1, l1) as = Inr (d', l')"
    by (auto split: sum.splits)
  show ?case
  proof (cases "b = a")
    case True
    then have "Warning_unnamedAnchor g \<in> set l1"
      using collectAnchor_Inr[OF s] Cons.prems(3) by (auto simp: isUnnamed_def)
    then show ?thesis using run_grows[OF r] by blast
  next
    case False
    then show ?thesis using Cons.IH[OF r] Cons.prems(2,3) by simp
  qed
qed

lemma run_duplicate:
  assumes run: "foldE (collectAnchor ctxKey getA g libs) (d, l)
                  (pre @ [a1] @ mid @ [a2] @ post) = Inr (d', l')"
    and n1: "ufo_name a1 = Some n" and n2: "ufo_name a2 = Some n"
    and b1: "buildNamedAnchor ctxKey getA g libs n a1 = Inr na1" and i1: "\<not> a_isIgnorable na1"
    and b2: "buildNamedAnchor ctxKey getA g libs n a2 = Inr na2" and i2: "\<not> a_isIgnorable na2"
    and post: "\<forall>b \<in> set post. ufo_name b \<noteq> Some n"
  shows "map_of d' n = Some na2 \<and> Warning_duplicateAnchor n g \<in> set l'"
proof -
  let ?f = "collectAnchor ctxKey getA g libs"
  from foldE_append_Inr[OF run] obtain d1 l1 where
    r1: "foldE ?f (d, l) pre = Inr (d1, l1)"
    and r1': "foldE ?f (d1, l1) ([a1] @ mid @ [a2] @ post) = Inr (d', l')" by auto
  from foldE_append_Inr[OF r1'] obtain d2 l2 where
    r2: "foldE ?f (d1, l1) [a1] = Inr (d2, l2)"
    and r2': "foldE ?f (d2, l2) (mid @ [a2] @ post) = Inr (d', l')" by auto
  from foldE_append_Inr[OF r2'] obtain d3 l3 where
    r3: "foldE ?f (d2, l2) mid = Inr (d3, l3)"
    and r3': "foldE ?f (d3, l3) ([a2] @ post) = Inr (d', l')" by auto
  from foldE_append_Inr[OF r3'] obtain d4 l4 where
    r4: "foldE ?f (d3, l3) [a2] = Inr (d4, l4)"
    and r5: "foldE ?f (d4, l4) post = Inr (d', l')" by auto
  from r2 have s1: "?f (d1, l1) a1 = Inr (d2, l2)" by (auto split: sum.splits)
  from r4 have s2: "?f (d3, l3) a2 = Inr (d4, l4)" by (auto split: sum.splits)
  have "d2 = AList.update n na1 d1" using collectAnchor_stored[OF s1 n1 b1 i1] by simp
  then have "n \<in> fst ` set d2" by (simp add: dom_update)
  then have in3: "n \<in> fst ` set d3" using run_grows[OF r3] by blast
  have d4: "d4 = AList.update n na2 d3" and l4: "l4 = l3 @ [Warning_duplicateAnchor n g]"
    using collectAnchor_stored[OF s2 n2 b2 i2] in3 by simp_all
  have "map_of d' n = map_of d4 n" using r5 post by (rule run_untouched)
  then have "map_of d' n = Some na2" by (simp add: d4 update_conv')
  moreover have "Warning_duplicateAnchor n g \<in> set l'"
    using run_grows[OF r5] l4 by auto
  ultimately show ?thesis by simp
qed

text \<open>
  Claim C8, as the code has it. In the anchors collected for one glyph there is one
  anchor per name; every kept anchor has a non-empty name, and each unnamed anchor
  of the glyph leaves a warning. When two anchors of the glyph that are both kept
  have the same name, a warning of a duplicate is logged and the later occurrence
  replaces the earlier one: it is the only anchor of that name in the glyph's
  anchor list.
\<close>

theorem duplicate_anchor_later_occurrence_kept:
  assumes "collectGlyphAnchors ctxKey getAnchor glyphName objectLibs log0 anchors
             = Inr (anchorDict, log)"
  shows "distinct (map fst anchorDict)
       \<and> (\<forall>(k, na) \<in> set anchorDict. k \<noteq> [] \<and> a_name na = k)
       \<and> (\<forall>b \<in> set anchors. isUnnamed b \<longrightarrow> Warning_unnamedAnchor glyphName \<in> set log)
       \<and> (anchors = pre @ [a1] @ mid @ [a2] @ post
            \<and> ufo_name a1 = Some n \<and> ufo_name a2 = Some n
            \<and> buildNamedAnchor ctxKey getAnchor glyphName objectLibs n a1 = Inr na1
            \<and> \<not> a_isIgnorable na1
            \<and> buildNamedAnchor ctxKey getAnchor glyphName objectLibs n a2 = Inr na2
            \<and> \<not> a_isIgnorable na2
            \<and> (\<forall>b \<in> set post. ufo_name b \<noteq> Some n)
          \<longrightarrow> Warning_duplicateAnchor n glyphName \<in> set log
            \<and> filter (\<lambda>na. a_name na = n) (map snd anchorDict) = [na2])"
proof -
  let ?f = "collectAnchor ctxKey getAnchor glyphName objectLibs"
  have run: "foldE ?f ([], log0) anchors = Inr (anchorDict, log)"
    using assms by (simp add: collectGlyphAnchors_def)
  have d: "distinct (map fst anchorDict)" using run_distinct[OF run] by simp
  have e: "\<forall>(k, na) \<in> set anchorDict. k \<noteq> [] \<and> a_name na = k"
    using run_entries[OF run] by simp
  have u: "\<forall>b \<in> set anchors. isUnnamed b \<longrightarrow> Warning_unnamedAnchor glyphName \<in> set log"
    using run_unnamed[OF run] by blast
  have dup: "Warning_duplicateAnchor n glyphName \<in> set log
      \<and> filter (\<lambda>na. a_name na = n) (map snd anchorDict) = [na2]"
    if h: "anchors = pre @ [a1] @ mid @ [a2] @ post
            \<and> ufo_name a1 = Some n \<and> ufo_name a2 = Some n
            \<and> buildNamedAnchor ctxKey getAnchor glyphName objectLibs n a1 = Inr na1
            \<and> \<not> a_isIgnorable na1
            \<and> buildNamedAnchor ctxKey getAnchor glyphName objectLibs n a2 = Inr na2
            \<and> \<not> a_isIgnorable na2
            \<and> (\<forall>b \<in> set post. ufo_name b \<noteq> Some n)"
  proof -
    have run': "foldE ?f ([], log0) (pre @ [a1] @ mid @ [a2] @ post) = Inr (anchorDict, log)"
      using run h by simp
    have m: "map_of anchorDict n = Some na2 \<and> Warning_duplicateAnchor n glyphName \<in> set log"
      using run' h by (intro run_duplicate[where ?a1.0 = a1 and ?na1.0 = na1]) blast+
    then have f: "filter (\<lambda>p. fst p = n) anchorDict = [(n, na2)]"
      using d by (intro filter_key_singleton) simp_all
    have "filter (\<lambda>na. a_name na = n) (map snd anchorDict)
        = map snd (filter (\<lambda>p. a_name (snd p) = n) anchorDict)"
      by (simp add: filter_map comp_def)
    also have "filter (\<lambda>p. a_name (snd p) = n) anchorDict = filter (\<lambda>p. fst p = n) anchorDict"
      using e by (intro filter_cong) auto
    finally show ?thesis using m f by simp
  qed
  show ?thesis using d e u dup by blast
qed

lemmas collect_defs =
  collectGlyphAnchors_def collectAnchor_def buildNamedAnchor_def NamedAnchor_init_def
  anchorLibData_def getAnchorLists_def collectGlyph_def gdefInclude_def

theorem duplicate_anchor_later_occurrence_kept_witness:
  "collectGlyphAnchors ''ctx'' (\<lambda>g n a. (ufo_x a, ufo_y a)) ''a'' None []
     [\<lparr>ufo_name = Some ''top'', ufo_x = 100::int, ufo_y = 500, ufo_identifier = None\<rparr>,
      \<lparr>ufo_name = None, ufo_x = 0, ufo_y = 0, ufo_identifier = None\<rparr>,
      \<lparr>ufo_name = Some ''top'', ufo_x = 200, ufo_y = 600, ufo_identifier = None\<rparr>]
     = Inr ([(''top'',
              \<lparr>a_name = ''top'', a_x = 200, a_y = 600, a_isMark = False, a_key = ''top'',
               a_number = None, a_markClass = None, a_isContextual = False,
               a_isIgnorable = False, a_libData = None\<rparr>)],
            [Warning_unnamedAnchor ''a'', Warning_duplicateAnchor ''top'' ''a''])
   \<and> filter (\<lambda>na. a_name na = ''top'')
        (map snd [(''top'',
              \<lparr>a_name = ''top'', a_x = 200::int, a_y = 600, a_isMark = False, a_key = ''top'',
               a_number = None, a_markClass = None, a_isContextual = False,
               a_isIgnorable = False, a_libData = None\<rparr>)])
     = [\<lparr>a_name = ''top'', a_x = 200, a_y = 600, a_isMark = False, a_key = ''top'',
         a_number = None, a_markClass = None, a_isContextual = False,
         a_isIgnorable = False, a_libData = None\<rparr>]"
proof -
  define a1 where "a1 = \<lparr>ufo_name = Some ''top'', ufo_x = 100::int, ufo_y = 500,
    ufo_identifier = None\<rparr>"
  define u where "u = \<lparr>ufo_name = None, ufo_x = 0::int, ufo_y = 0, ufo_identifier = None\<rparr>"
  define a2 where "a2 = \<lparr>ufo_name = Some ''top'', ufo_x = 200::int, ufo_y = 600,
    ufo_identifier = None\<rparr>"
  define na1 where "na1 = \<lparr>a_name = ''top'', a_x = 100::int, a_y = 500, a_isMark = False,
    a_key = ''top'', a_number = None, a_markClass = None, a_isContextual = False,
    a_isIgnorable = False, a_libData = None\<rparr>"
  define na2 where "na2 = \<lparr>a_name = ''top'', a_x = 200::int, a_y = 600, a_isMark = False,
    a_key = ''top'', a_number = None, a_markClass = None, a_isContextual = False,
    a_isIgnorable = False, a_libData = None\<rparr>"
  define getA where "getA = (\<lambda>(g::string) (n::string) (a::int UFOAnchor). (ufo_x a, ufo_y a))"
  have b1: "buildNamedAnchor ''ctx'' getA ''a'' None ''top'' a1 = Inr na1"
    and b2: "buildNamedAnchor ''ctx'' getA ''a'' None ''top'' a2 = Inr na2"
    by (simp_all add: a1_def a2_def na1_def na2_def getA_def collect_defs parse_defs)
  have run: "collectGlyphAnchors ''ctx'' getA ''a'' None [] [a1, u, a2]
      = Inr ([(''top'', na2)], [Warning_unnamedAnchor ''a'', Warning_duplicateAnchor ''top'' ''a''])"
    by (simp add: a1_def a2_def u_def na2_def getA_def collect_defs parse_defs)
  have split: "[a1, u, a2] = [] @ [a1] @ [u] @ [a2] @ []" by simp
  have names: "ufo_name a1 = Some ''top''" "ufo_name a2 = Some ''top''"
    and ign: "\<not> a_isIgnorable na1" "\<not> a_isIgnorable na2"
    by (simp_all add: a1_def a2_def na1_def na2_def)
  have post: "\<forall>b \<in> set ([]::int UFOAnchor list). ufo_name b \<noteq> Some ''top''" by simp
  have H: "[a1, u, a2] = [] @ [a1] @ [u] @ [a2] @ []
            \<and> ufo_name a1 = Some ''top'' \<and> ufo_name a2 = Some ''top''
            \<and> buildNamedAnchor ''ctx'' getA ''a'' None ''top'' a1 = Inr na1
            \<and> \<not> a_isIgnorable na1
            \<and> buildNamedAnchor ''ctx'' getA ''a'' None ''top'' a2 = Inr na2
            \<and> \<not> a_isIgnorable na2
            \<and> (\<forall>b \<in> set ([]::int UFOAnchor list). ufo_name b \<noteq> Some ''top'')"
    by (intro conjI split names ign b1 b2 post)
  note T = duplicate_anchor_later_occurrence_kept
    [OF run, where pre = "[]" and ?a1.0 = a1 and mid = "[u]" and ?a2.0 = a2 and post = "[]"
       and n = "''top''" and ?na1.0 = na1 and ?na2.0 = na2]
  from T have "filter (\<lambda>na. a_name na = ''top'') (map snd [(''top'', na2)]) = [na2]"
    by (elim conjE impE[OF _ H])
  with run show ?thesis
    unfolding a1_def a2_def u_def na2_def getA_def by (intro conjI)
qed

text \<open>
  The claim C8 as the specification words it fails: of two anchors named \<^verbatim>\<open>"top"\<close>
  in the glyph \<^verbatim>\<open>"a"\<close>, at (100, 500) and then at (200, 600), the anchor list keeps the
  later one.
\<close>

theorem duplicate_anchor_first_kept_counterexample:
  "getAnchorLists ''ctx'' (\<lambda>g n a. (ufo_x a, ufo_y a))
     \<lparr>gdef_base = None, gdef_ligature = None, gdef_mark = None\<rparr>
     [(''a'', \<lparr>g_anchors =
         [\<lparr>ufo_name = Some ''top'', ufo_x = 100::int, ufo_y = 500, ufo_identifier = None\<rparr>,
          \<lparr>ufo_name = Some ''top'', ufo_x = 200, ufo_y = 600, ufo_identifier = None\<rparr>],
        g_objectLibs = None\<rparr>)]
     = Inr ([(''a'',
              [\<lparr>a_name = ''top'', a_x = 200, a_y = 600, a_isMark = False, a_key = ''top'',
                a_number = None, a_markClass = None, a_isContextual = False,
                a_isIgnorable = False, a_libData = None\<rparr>])],
            [Warning_duplicateAnchor ''top'' ''a''])"
  by (simp add: collect_defs parse_defs)

subsection \<open>A glyph that a mark class defines already\<close>





subsection \<open>Components of a ligature\<close>

lemma componentStep_cases:
  assumes "componentStep cA a = Inr cA'"
  shows "((\<forall>n. \<not> keyedFor n a \<and> \<not> nullFor n a) \<and> cA' = cA)
       \<or> (\<exists>n. nullFor n a \<and> cA' = AList.update n [] cA)
       \<or> (\<exists>n. keyedFor n a
             \<and> cA' = AList.update n
                  ((case map_of cA n of None \<Rightarrow> [] | Some collected \<Rightarrow> collected) @ [a]) cA)"
  using assms unfolding componentStep_def keyedFor_def nullFor_def
  by (auto split: if_splits option.splits)

lemma components_untouched:
  "foldE componentStep cA as = Inr cA'
     \<Longrightarrow> \<forall>b \<in> set as. \<not> keyedFor n b \<and> \<not> nullFor n b
     \<Longrightarrow> map_of cA' n = map_of cA n"
proof (induction as arbitrary: cA)
  case Nil
  then show ?case by simp
next
  case (Cons a as)
  from foldE_Cons_Inr[OF Cons.prems(1)] obtain cA1 where
    s: "componentStep cA a = Inr cA1" and r: "foldE componentStep cA1 as = Inr cA'"
    by auto
  have "map_of cA1 n = map_of cA n"
  proof -
    from componentStep_cases[OF s] show ?thesis
    proof (elim disjE exE conjE)
      assume "cA1 = cA"
      then show ?thesis by simp
    next
      fix m assume "nullFor m a" "cA1 = AList.update m [] cA"
      moreover from this have "m \<noteq> n" using Cons.prems(2)
        by (auto simp: nullFor_def)
      ultimately show ?thesis by (simp add: update_conv')
    next
      fix m assume "keyedFor m a"
        "cA1 = AList.update m
           ((case map_of cA m of None \<Rightarrow> [] | Some collected \<Rightarrow> collected) @ [a]) cA"
      moreover from this have "m \<noteq> n" using Cons.prems(2)
        by (auto simp: keyedFor_def)
      ultimately show ?thesis by (simp add: update_conv')
    qed
  qed
  then show ?case using Cons.IH[OF r] Cons.prems(2) by simp
qed

lemma components_stay_null:
  "foldE componentStep cA as = Inr cA'
     \<Longrightarrow> map_of cA n = Some []
     \<Longrightarrow> \<forall>b \<in> set as. \<not> keyedFor n b
     \<Longrightarrow> map_of cA' n = Some []"
proof (induction as arbitrary: cA)
  case Nil
  then show ?case by simp
next
  case (Cons a as)
  from foldE_Cons_Inr[OF Cons.prems(1)] obtain cA1 where
    s: "componentStep cA a = Inr cA1" and r: "foldE componentStep cA1 as = Inr cA'"
    by auto
  have "map_of cA1 n = Some []"
  proof -
    from componentStep_cases[OF s] show ?thesis
    proof (elim disjE exE conjE)
      assume "cA1 = cA"
      then show ?thesis using Cons.prems(2) by simp
    next
      fix m assume "cA1 = AList.update m [] cA"
      then show ?thesis using Cons.prems(2) by (simp add: update_conv')
    next
      fix m assume "keyedFor m a"
        "cA1 = AList.update m
           ((case map_of cA m of None \<Rightarrow> [] | Some collected \<Rightarrow> collected) @ [a]) cA"
      moreover from this have "m \<noteq> n" using Cons.prems(3) by (auto simp: keyedFor_def)
      ultimately show ?thesis using Cons.prems(2) by (simp add: update_conv')
    qed
  qed
  then show ?case using Cons.IH[OF r] Cons.prems(3) by simp
qed

lemma components_null:
  assumes run: "foldE componentStep cA (pre @ [a] @ post) = Inr cA'"
    and a: "nullFor n a" and post: "\<forall>b \<in> set post. \<not> keyedFor n b"
  shows "map_of cA' n = Some []"
proof -
  from foldE_append_Inr[OF run] obtain cA1 where
    r1: "foldE componentStep cA pre = Inr cA1"
    and r1': "foldE componentStep cA1 ([a] @ post) = Inr cA'" by auto
  from foldE_append_Inr[OF r1'] obtain cA2 where
    r2: "foldE componentStep cA1 [a] = Inr cA2"
    and r3: "foldE componentStep cA2 post = Inr cA'" by auto
  from r2 have s: "componentStep cA1 a = Inr cA2" by (auto split: sum.splits)
  have "cA2 = AList.update n [] cA1"
    using s a unfolding componentStep_def nullFor_def
    by (auto split: if_splits option.splits)
  then have "map_of cA2 n = Some []" by (simp add: update_conv')
  with r3 show ?thesis using post by (rule components_stay_null)
qed

text \<open>Every anchor of a component was collected for it: it has the number and a key.\<close>

lemma entries_update:
  assumes "\<forall>(n, c) \<in> set cA. P n c" and "P m v"
  shows "\<forall>(n, c) \<in> set (AList.update m v cA). P n c"
proof (clarify)
  fix n c assume "(n, c) \<in> set (AList.update m v cA)"
  then have "(n, c) = (m, v) \<or> (n, c) \<in> set cA"
    using set_update_subset[of m v cA] by blast
  then show "P n c" using assms by auto
qed

lemma components_content:
  "foldE componentStep cA as = Inr cA'
     \<Longrightarrow> \<forall>(n, collected) \<in> set cA. \<forall>b \<in> set collected. keyedFor n b \<and> b \<in> S
     \<Longrightarrow> set as \<subseteq> S
     \<Longrightarrow> \<forall>(n, collected) \<in> set cA'. \<forall>b \<in> set collected. keyedFor n b \<and> b \<in> S"
proof (induction as arbitrary: cA)
  case Nil
  then show ?case by simp
next
  case (Cons a as)
  from foldE_Cons_Inr[OF Cons.prems(1)] obtain cA1 where
    s: "componentStep cA a = Inr cA1" and r: "foldE componentStep cA1 as = Inr cA'"
    by auto
  have aS: "a \<in> S" and asS: "set as \<subseteq> S" using Cons.prems(3) by simp_all
  have "\<forall>(n, collected) \<in> set cA1. \<forall>b \<in> set collected. keyedFor n b \<and> b \<in> S"
  proof -
    from componentStep_cases[OF s] show ?thesis
    proof (elim disjE exE conjE)
      assume "cA1 = cA"
      then show ?thesis using Cons.prems(2) by simp
    next
      fix m assume c: "cA1 = AList.update m [] cA"
      show ?thesis unfolding c using Cons.prems(2) by (rule entries_update) simp
    next
      fix m assume k: "keyedFor m a"
        and c: "cA1 = AList.update m
           ((case map_of cA m of None \<Rightarrow> [] | Some collected \<Rightarrow> collected) @ [a]) cA"
      let ?old = "case map_of cA m of None \<Rightarrow> [] | Some collected \<Rightarrow> collected"
      have old: "\<forall>b \<in> set ?old. keyedFor m b \<and> b \<in> S"
      proof (cases "map_of cA m")
        case None
        then show ?thesis by simp
      next
        case (Some collected)
        then have "(m, collected) \<in> set cA" by (rule map_of_SomeD)
        then show ?thesis using Cons.prems(2) Some by auto
      qed
      show ?thesis unfolding c using Cons.prems(2)
        by (rule entries_update) (use old k aS in auto)
    qed
  qed
  then show ?case using Cons.IH[OF r _ asS] by simp
qed

text \<open>The keys of the dictionary are the numbers of the anchors collected.\<close>

lemma collected_number_unique:
  "keyedFor m a \<or> nullFor m a \<Longrightarrow> (keyedFor n a \<or> nullFor n a) \<longleftrightarrow> n = m"
  by (auto simp: keyedFor_def nullFor_def)

lemma components_keys:
  "foldE componentStep cA as = Inr cA'
     \<Longrightarrow> fst ` set cA' = fst ` set cA \<union> {n. \<exists>b \<in> set as. keyedFor n b \<or> nullFor n b}"
proof (induction as arbitrary: cA)
  case Nil
  then show ?case by simp
next
  case (Cons a as)
  from foldE_Cons_Inr[OF Cons.prems(1)] obtain cA1 where
    s: "componentStep cA a = Inr cA1" and r: "foldE componentStep cA1 as = Inr cA'"
    by auto
  have "fst ` set cA1 = fst ` set cA \<union> {n. keyedFor n a \<or> nullFor n a}"
  proof -
    from componentStep_cases[OF s] show ?thesis
    proof (elim disjE exE conjE)
      assume "\<forall>n. \<not> keyedFor n a \<and> \<not> nullFor n a" "cA1 = cA"
      then show ?thesis by simp
    next
      fix m assume m: "nullFor m a" and c: "cA1 = AList.update m [] cA"
      have "{n. keyedFor n a \<or> nullFor n a} = {m}"
        using collected_number_unique[of m a] m by blast
      then show ?thesis unfolding c dom_update by blast
    next
      fix m assume m: "keyedFor m a"
        and c: "cA1 = AList.update m
           ((case map_of cA m of None \<Rightarrow> [] | Some collected \<Rightarrow> collected) @ [a]) cA"
      have "{n. keyedFor n a \<or> nullFor n a} = {m}"
        using collected_number_unique[of m a] m by blast
      then show ?thesis unfolding c dom_update by blast
    qed
  qed
  then show ?case using Cons.IH[OF r] by auto
qed

text \<open>
  Without an anchor with an empty key for the component, its entry is the list of
  the anchors with a key collected for it, in the order of the glyph.
\<close>

lemma components_exact:
  "foldE componentStep cA as = Inr cA'
     \<Longrightarrow> \<forall>b \<in> set as. \<not> nullFor n b
     \<Longrightarrow> (case map_of cA' n of None \<Rightarrow> [] | Some collected \<Rightarrow> collected)
           = (case map_of cA n of None \<Rightarrow> [] | Some collected \<Rightarrow> collected)
               @ filter (keyedFor n) as"
proof (induction as arbitrary: cA)
  case Nil
  then show ?case by simp
next
  case (Cons a as)
  from foldE_Cons_Inr[OF Cons.prems(1)] obtain cA1 where
    s: "componentStep cA a = Inr cA1" and r: "foldE componentStep cA1 as = Inr cA'"
    by auto
  have nn: "\<not> nullFor n a" and rest: "\<forall>b \<in> set as. \<not> nullFor n b"
    using Cons.prems(2) by simp_all
  have step: "(case map_of cA1 n of None \<Rightarrow> [] | Some collected \<Rightarrow> collected)
      = (case map_of cA n of None \<Rightarrow> [] | Some collected \<Rightarrow> collected)
          @ filter (keyedFor n) [a]"
  proof -
    from componentStep_cases[OF s] show ?thesis
    proof (elim disjE exE conjE)
      assume "\<forall>n. \<not> keyedFor n a \<and> \<not> nullFor n a" "cA1 = cA"
      then show ?thesis by simp
    next
      fix m assume m: "nullFor m a" and c: "cA1 = AList.update m [] cA"
      have "m \<noteq> n" using m nn by blast
      moreover have "\<not> keyedFor n a" using m by (simp add: nullFor_def keyedFor_def)
      ultimately show ?thesis unfolding c by (simp add: update_conv')
    next
      fix m assume m: "keyedFor m a"
        and c: "cA1 = AList.update m
           ((case map_of cA m of None \<Rightarrow> [] | Some collected \<Rightarrow> collected) @ [a]) cA"
      show ?thesis
      proof (cases "m = n")
        case True
        then show ?thesis using m unfolding c by (simp add: update_conv')
      next
        case False
        then have "\<not> keyedFor n a" using m by (auto simp: keyedFor_def)
        then show ?thesis using False unfolding c by (simp add: update_conv')
      qed
    qed
  qed
  from Cons.IH[OF r rest] show ?case unfolding step by simp
qed

text \<open>
  After the last anchor with an empty key for the component, its entry is the list
  of the anchors with a key collected for it from there on.
\<close>

lemma components_after_null:
  assumes run: "foldE componentStep cA (pre @ [a] @ post) = Inr cA'"
    and a: "nullFor n a" and post: "\<forall>b \<in> set post. \<not> nullFor n b"
  shows "(case map_of cA' n of None \<Rightarrow> [] | Some collected \<Rightarrow> collected)
           = filter (keyedFor n) post"
proof -
  from foldE_append_Inr[OF run] obtain cA1 where
    r1: "foldE componentStep cA pre = Inr cA1"
    and r1': "foldE componentStep cA1 ([a] @ post) = Inr cA'" by auto
  from foldE_append_Inr[OF r1'] obtain cA2 where
    r2: "foldE componentStep cA1 [a] = Inr cA2"
    and r3: "foldE componentStep cA2 post = Inr cA'" by auto
  from r2 have s: "componentStep cA1 a = Inr cA2" by (auto split: sum.splits)
  have "cA2 = AList.update n [] cA1"
    using s a unfolding componentStep_def nullFor_def
    by (auto split: if_splits option.splits)
  then have "map_of cA2 n = Some []" by (simp add: update_conv')
  with components_exact[OF r3 post] show ?thesis by simp
qed

lemma ligatureMarks_length:
  "length (ligatureMarks cA) = Max (set (map fst cA))"
  by (simp add: ligatureMarks_def)

lemma ligatureMarks_nth:
  assumes "1 \<le> i" and "i \<le> Max (set (map fst cA))"
  shows "ligatureMarks cA ! (i - 1) = (case map_of cA i of None \<Rightarrow> [] | Some collected \<Rightarrow> collected)"
proof -
  have "i - 1 < length [1 ..< Max (set (map fst cA)) + 1]" using assms by simp
  then have "ligatureMarks cA ! (i - 1)
      = (\<lambda>number. case map_of cA number of None \<Rightarrow> [] | Some collected \<Rightarrow> collected)
          ([1 ..< Max (set (map fst cA)) + 1] ! (i - 1))"
    unfolding ligatureMarks_def by (rule nth_map)
  moreover have "[1 ..< Max (set (map fst cA)) + 1] ! (i - 1) = 1 + (i - 1)"
    using assms by (intro nth_upt) simp
  moreover have "1 + (i - 1) = i" using assms by simp
  ultimately show ?thesis by simp
qed

lemma ligaStep_member:
  "foldE (ligaStep markGlyphNames ligatureClass) result anchorLists = Inr result'
     \<Longrightarrow> set result \<subseteq> set result'"
proof (induction anchorLists arbitrary: result)
  case Nil
  then show ?case by simp
next
  case (Cons entry anchorLists)
  from foldE_Cons_Inr[OF Cons.prems] obtain r1 where
    s: "ligaStep markGlyphNames ligatureClass result entry = Inr r1"
    and r: "foldE (ligaStep markGlyphNames ligatureClass) r1 anchorLists = Inr result'"
    by auto
  have "set result \<subseteq> set r1"
    using s unfolding ligaStep_def by (auto split: prod.splits if_splits sum.splits)
  then show ?case using Cons.IH[OF r] by blast
qed

lemma ligaStep_attachment:
  assumes "foldE (ligaStep markGlyphNames ligatureClass) result anchorLists = Inr result'"
    and "(glyphName, anchors) \<in> set anchorLists"
    and "glyphName \<notin> set markGlyphNames"
    and "case ligatureClass of None \<Rightarrow> True | Some lc \<Rightarrow> glyphName \<in> set lc"
  shows "\<exists>cA. foldE componentStep [] anchors = Inr cA
            \<and> (cA \<noteq> [] \<longrightarrow> MarkToLigaPos glyphName (ligatureMarks cA) \<in> set result')"
  using assms(1,2)
proof (induction anchorLists arbitrary: result)
  case Nil
  then show ?case by simp
next
  case (Cons entry anchorLists)
  from foldE_Cons_Inr[OF Cons.prems(1)] obtain r1 where
    s: "ligaStep markGlyphNames ligatureClass result entry = Inr r1"
    and r: "foldE (ligaStep markGlyphNames ligatureClass) r1 anchorLists = Inr result'"
    by auto
  show ?case
  proof (cases "entry = (glyphName, anchors)")
    case True
    have adm: "\<not> (glyphName \<in> set markGlyphNames
        \<or> (case ligatureClass of None \<Rightarrow> False | Some lc \<Rightarrow> glyphName \<notin> set lc))"
      using assms(3,4) by (auto split: option.splits)
    from s True adm obtain cA where cA: "foldE componentStep [] anchors = Inr cA"
      and r1: "r1 = (if cA = [] then result
                     else result @ [MarkToLigaPos glyphName (ligatureMarks cA)])"
      unfolding ligaStep_def by (auto split: sum.splits if_splits)
    have "cA \<noteq> [] \<longrightarrow> MarkToLigaPos glyphName (ligatureMarks cA) \<in> set r1"
      using r1 by simp
    then show ?thesis using cA ligaStep_member[OF r] by blast
  next
    case False
    then have "(glyphName, anchors) \<in> set anchorLists" using Cons.prems(2) by simp
    then show ?thesis using Cons.IH[OF r] by simp
  qed
qed

text \<open>
  Claim C6, as the code has it. Take a glyph that is not a mark glyph and is in the
  GDEF ligature class when there is one. The anchors collected for its components
  are those with a component number that are not contextual and have a key and a
  mark class, or an empty key. When there is one, the result holds the attachment
  of the glyph, whose component list has one entry for each number from 1 to the
  largest number collected. The entry of a number for which the glyph has no
  anchor with an empty key is the list of the anchors of the glyph collected for
  it with a key, in their order; it is empty when there is none. In every case
  the entry holds only such anchors. An anchor collected with an empty key gives
  its component the empty entry when no anchor with a key for that component comes
  after it in the glyph; in general the entry of a component is the list of the
  anchors with a key collected for it after the last anchor with an empty key for
  that component.
\<close>

theorem makeMarkToLigaAttachments_components:
  assumes "makeMarkToLigaAttachments markGlyphNames ligatureClass anchorLists = Inr result"
    and "(glyphName, anchors) \<in> set anchorLists"
    and "glyphName \<notin> set markGlyphNames"
    and "case ligatureClass of None \<Rightarrow> True | Some lc \<Rightarrow> glyphName \<in> set lc"
  shows "\<exists>componentAnchors.
           foldE componentStep [] anchors = Inr componentAnchors
         \<and> fst ` set componentAnchors
             = {n. \<exists>b \<in> set anchors. keyedFor n b \<or> nullFor n b}
         \<and> (componentAnchors \<noteq> [] \<longrightarrow>
              MarkToLigaPos glyphName (ligatureMarks componentAnchors) \<in> set result)
         \<and> length (ligatureMarks componentAnchors) = Max (fst ` set componentAnchors)
         \<and> (\<forall>i. 1 \<le> i \<and> i \<le> Max (fst ` set componentAnchors) \<longrightarrow>
               ((\<forall>b \<in> set anchors. \<not> nullFor i b)
                  \<longrightarrow> ligatureMarks componentAnchors ! (i - 1) = filter (keyedFor i) anchors)
               \<and> (\<forall>b \<in> set (ligatureMarks componentAnchors ! (i - 1)).
                   b \<in> set anchors \<and> keyedFor i b)
               \<and> ((\<exists>pre a post. anchors = pre @ [a] @ post \<and> nullFor i a
                        \<and> (\<forall>b \<in> set post. \<not> keyedFor i b))
                     \<longrightarrow> ligatureMarks componentAnchors ! (i - 1) = [])
               \<and> (\<forall>pre a post. anchors = pre @ [a] @ post \<and> nullFor i a
                        \<and> (\<forall>b \<in> set post. \<not> nullFor i b)
                     \<longrightarrow> ligatureMarks componentAnchors ! (i - 1)
                           = filter (keyedFor i) post))"
proof -
  from ligaStep_attachment[OF assms(1)[unfolded makeMarkToLigaAttachments_def] assms(2,3,4)]
  obtain cA where run: "foldE componentStep [] anchors = Inr cA"
    and att: "cA \<noteq> [] \<longrightarrow> MarkToLigaPos glyphName (ligatureMarks cA) \<in> set result"
    by blast
  have content: "\<forall>(n, collected) \<in> set cA. \<forall>b \<in> set collected. keyedFor n b \<and> b \<in> set anchors"
    using components_content[OF run, of "set anchors"] by simp
  have keys: "fst ` set cA = {n. \<exists>b \<in> set anchors. keyedFor n b \<or> nullFor n b}"
    using components_keys[OF run] by simp
  have len: "length (ligatureMarks cA) = Max (fst ` set cA)"
    by (simp add: ligatureMarks_length)
  have entries: "((\<forall>b \<in> set anchors. \<not> nullFor i b)
          \<longrightarrow> ligatureMarks cA ! (i - 1) = filter (keyedFor i) anchors)
      \<and> (\<forall>b \<in> set (ligatureMarks cA ! (i - 1)). b \<in> set anchors \<and> keyedFor i b)
      \<and> ((\<exists>pre a post. anchors = pre @ [a] @ post \<and> nullFor i a
              \<and> (\<forall>b \<in> set post. \<not> keyedFor i b))
           \<longrightarrow> ligatureMarks cA ! (i - 1) = [])
      \<and> (\<forall>pre a post. anchors = pre @ [a] @ post \<and> nullFor i a
              \<and> (\<forall>b \<in> set post. \<not> nullFor i b)
           \<longrightarrow> ligatureMarks cA ! (i - 1) = filter (keyedFor i) post)"
    if i: "1 \<le> i \<and> i \<le> Max (fst ` set cA)" for i
  proof -
    have nth: "ligatureMarks cA ! (i - 1)
        = (case map_of cA i of None \<Rightarrow> [] | Some collected \<Rightarrow> collected)"
      using i by (intro ligatureMarks_nth) simp_all
    have 1: "\<forall>b \<in> set (ligatureMarks cA ! (i - 1)). b \<in> set anchors \<and> keyedFor i b"
    proof (cases "map_of cA i")
      case None
      then show ?thesis unfolding nth by simp
    next
      case (Some collected)
      then have "(i, collected) \<in> set cA" by (rule map_of_SomeD)
      then show ?thesis unfolding nth using content Some by auto
    qed
    have 2: "ligatureMarks cA ! (i - 1) = []"
      if "\<exists>pre a post. anchors = pre @ [a] @ post \<and> nullFor i a
              \<and> (\<forall>b \<in> set post. \<not> keyedFor i b)"
    proof -
      from that obtain pre a post where sp: "anchors = pre @ [a] @ post"
        and a: "nullFor i a" and post: "\<forall>b \<in> set post. \<not> keyedFor i b" by blast
      have "map_of cA i = Some []"
        using run[unfolded sp] a post by (rule components_null)
      then show ?thesis unfolding nth by simp
    qed
    have 0: "ligatureMarks cA ! (i - 1) = filter (keyedFor i) anchors"
      if "\<forall>b \<in> set anchors. \<not> nullFor i b"
      using components_exact[OF run that] unfolding nth by simp
    have 3: "ligatureMarks cA ! (i - 1) = filter (keyedFor i) post"
      if "anchors = pre @ [a] @ post \<and> nullFor i a \<and> (\<forall>b \<in> set post. \<not> nullFor i b)"
      for pre a post
    proof -
      from that have sp: "anchors = pre @ [a] @ post"
        and a: "nullFor i a" and post: "\<forall>b \<in> set post. \<not> nullFor i b" by blast+
      show ?thesis
        unfolding nth using run[unfolded sp] a post by (rule components_after_null)
    qed
    show ?thesis
    proof (intro conjI impI allI)
      show "ligatureMarks cA ! (i - 1) = filter (keyedFor i) anchors"
        if "\<forall>b \<in> set anchors. \<not> nullFor i b"
        using that by (rule 0)
      show "\<forall>b \<in> set (ligatureMarks cA ! (i - 1)). b \<in> set anchors \<and> keyedFor i b"
        by (rule 1)
      show "ligatureMarks cA ! (i - 1) = []"
        if "\<exists>pre a post. anchors = pre @ [a] @ post \<and> nullFor i a
              \<and> (\<forall>b \<in> set post. \<not> keyedFor i b)"
        using that by (rule 2)
      show "ligatureMarks cA ! (i - 1) = filter (keyedFor i) post"
        if "anchors = pre @ [a] @ post \<and> nullFor i a \<and> (\<forall>b \<in> set post. \<not> nullFor i b)"
        for pre a post
        using that by (rule 3)
    qed
  qed
  show ?thesis
  proof (intro exI[of _ cA] conjI allI)
    show "foldE componentStep [] anchors = Inr cA" by (rule run)
    show "fst ` set cA = {n. \<exists>b \<in> set anchors. keyedFor n b \<or> nullFor n b}" by (rule keys)
    show "cA \<noteq> [] \<longrightarrow> MarkToLigaPos glyphName (ligatureMarks cA) \<in> set result"
      by (rule att)
    show "length (ligatureMarks cA) = Max (fst ` set cA)" by (rule len)
    show "1 \<le> i \<and> i \<le> Max (fst ` set cA) \<longrightarrow>
         ((\<forall>b \<in> set anchors. \<not> nullFor i b)
            \<longrightarrow> ligatureMarks cA ! (i - 1) = filter (keyedFor i) anchors)
         \<and> (\<forall>b \<in> set (ligatureMarks cA ! (i - 1)). b \<in> set anchors \<and> keyedFor i b)
         \<and> ((\<exists>pre a post. anchors = pre @ [a] @ post \<and> nullFor i a
                  \<and> (\<forall>b \<in> set post. \<not> keyedFor i b))
               \<longrightarrow> ligatureMarks cA ! (i - 1) = [])
         \<and> (\<forall>pre a post. anchors = pre @ [a] @ post \<and> nullFor i a
                  \<and> (\<forall>b \<in> set post. \<not> nullFor i b)
               \<longrightarrow> ligatureMarks cA ! (i - 1) = filter (keyedFor i) post)" for i
      using entries[of i] by (intro impI)
  qed
qed

theorem makeMarkToLigaAttachments_components_witness:
  "makeMarkToLigaAttachments [''tildecomb''] None
     [(''f_f'',
       [\<lparr>a_name = ''top_1'', a_x = 50::int, a_y = 500, a_isMark = False, a_key = ''top'',
          a_number = Some 1, a_markClass = Some (\<lparr>mc_name = ''MC_top'', mc_glyphs =
            [(''tildecomb'', \<lparr>anchor_x = 0, anchor_y = 0, contourpoint = None,
               xDeviceTable = None, yDeviceTable = None\<rparr>)]\<rparr>), a_isContextual = False,
          a_isIgnorable = False, a_libData = None\<rparr>,
        \<lparr>a_name = ''_2'', a_x = 0, a_y = 0, a_isMark = False, a_key = [],
          a_number = Some 2, a_markClass = None, a_isContextual = False,
          a_isIgnorable = False, a_libData = None\<rparr>,
        \<lparr>a_name = ''top_3'', a_x = 250, a_y = 500, a_isMark = False, a_key = ''top'',
          a_number = Some 3, a_markClass = Some (\<lparr>mc_name = ''MC_top'', mc_glyphs =
            [(''tildecomb'', \<lparr>anchor_x = 0, anchor_y = 0, contourpoint = None,
               xDeviceTable = None, yDeviceTable = None\<rparr>)]\<rparr>), a_isContextual = False,
          a_isIgnorable = False, a_libData = None\<rparr>])]
   = Inr [MarkToLigaPos ''f_f''
       [[\<lparr>a_name = ''top_1'', a_x = 50, a_y = 500, a_isMark = False, a_key = ''top'',
          a_number = Some 1, a_markClass = Some (\<lparr>mc_name = ''MC_top'', mc_glyphs =
            [(''tildecomb'', \<lparr>anchor_x = 0, anchor_y = 0, contourpoint = None,
               xDeviceTable = None, yDeviceTable = None\<rparr>)]\<rparr>), a_isContextual = False,
          a_isIgnorable = False, a_libData = None\<rparr>],
        [],
        [\<lparr>a_name = ''top_3'', a_x = 250, a_y = 500, a_isMark = False, a_key = ''top'',
          a_number = Some 3, a_markClass = Some (\<lparr>mc_name = ''MC_top'', mc_glyphs =
            [(''tildecomb'', \<lparr>anchor_x = 0, anchor_y = 0, contourpoint = None,
               xDeviceTable = None, yDeviceTable = None\<rparr>)]\<rparr>), a_isContextual = False,
          a_isIgnorable = False, a_libData = None\<rparr>]]]"
proof -
  define mc where "mc = \<lparr>mc_name = ''MC_top'', mc_glyphs =
            [(''tildecomb'', \<lparr>anchor_x = 0, anchor_y = 0, contourpoint = None,
               xDeviceTable = None, yDeviceTable = None\<rparr>)]\<rparr>"
  define t1 where "t1 = \<lparr>a_name = ''top_1'', a_x = 50::int, a_y = 500, a_isMark = False, a_key = ''top'',
          a_number = Some 1, a_markClass = Some (mc), a_isContextual = False,
          a_isIgnorable = False, a_libData = None\<rparr>"
  define n2 where "n2 = \<lparr>a_name = ''_2'', a_x = 0::int, a_y = 0, a_isMark = False, a_key = [],
          a_number = Some 2, a_markClass = None, a_isContextual = False,
          a_isIgnorable = False, a_libData = None\<rparr>"
  define t3 where "t3 = \<lparr>a_name = ''top_3'', a_x = 250::int, a_y = 500, a_isMark = False, a_key = ''top'',
          a_number = Some 3, a_markClass = Some (mc), a_isContextual = False,
          a_isIgnorable = False, a_libData = None\<rparr>"
  define cA0 where "cA0 = [(1::nat, [t1]), (2, []), (3, [t3])]"
  have ev: "foldE componentStep [] [t1, n2, t3] = Inr cA0"
    by (simp add: cA0_def t1_def n2_def t3_def componentStep_def)
  have run: "makeMarkToLigaAttachments [''tildecomb''] None [(''f_f'', [t1, n2, t3])]
      = Inr [MarkToLigaPos ''f_f'' (ligatureMarks cA0)]"
  proof -
    have ne: "cA0 \<noteq> []" by (simp add: cA0_def)
    have "ligaStep [''tildecomb''] None [] (''f_f'', [t1, n2, t3])
        = Inr [MarkToLigaPos ''f_f'' (ligatureMarks cA0)]"
      unfolding ligaStep_def using ne by (simp add: ev del: foldE.simps)
    then show ?thesis by (simp add: makeMarkToLigaAttachments_def)
  qed
  have mem: "(''f_f'', [t1, n2, t3]) \<in> set [(''f_f'', [t1, n2, t3])]" by simp
  have nm: "''f_f'' \<notin> set [''tildecomb'']" by simp
  have lig: "case None of None \<Rightarrow> True | Some lc \<Rightarrow> ''f_f'' \<in> set lc" by simp
  from makeMarkToLigaAttachments_components[OF run mem nm lig]
  obtain cA where c: "foldE componentStep [] [t1, n2, t3] = Inr cA"
    and len: "length (ligatureMarks cA) = Max (fst ` set cA)"
    and ent: "\<forall>i. 1 \<le> i \<and> i \<le> Max (fst ` set cA) \<longrightarrow>
               ((\<forall>b \<in> set [t1, n2, t3]. \<not> nullFor i b)
                  \<longrightarrow> ligatureMarks cA ! (i - 1) = filter (keyedFor i) [t1, n2, t3])
               \<and> (\<forall>b \<in> set (ligatureMarks cA ! (i - 1)).
                   b \<in> set [t1, n2, t3] \<and> keyedFor i b)
               \<and> ((\<exists>pre a post. [t1, n2, t3] = pre @ [a] @ post \<and> nullFor i a
                        \<and> (\<forall>b \<in> set post. \<not> keyedFor i b))
                     \<longrightarrow> ligatureMarks cA ! (i - 1) = [])
               \<and> (\<forall>pre a post. [t1, n2, t3] = pre @ [a] @ post \<and> nullFor i a
                        \<and> (\<forall>b \<in> set post. \<not> nullFor i b)
                     \<longrightarrow> ligatureMarks cA ! (i - 1) = filter (keyedFor i) post)"
    by (elim exE conjE)
  from c ev have cA: "cA = cA0" by simp
  have max: "Max (fst ` set cA0) = 3" by (simp add: cA0_def)
  have "[t1, n2, t3] = [t1] @ [n2] @ [t3] \<and> nullFor 2 n2
      \<and> (\<forall>b \<in> set [t3]. \<not> keyedFor 2 b)"
    by (simp add: n2_def t3_def nullFor_def keyedFor_def)
  then have "\<exists>pre a post. [t1, n2, t3] = pre @ [a] @ post \<and> nullFor 2 a
      \<and> (\<forall>b \<in> set post. \<not> keyedFor 2 b)"
    by blast
  with ent[unfolded cA max, rule_format, of 2]
  have second: "ligatureMarks cA0 ! (2 - 1) = []" by simp
  have third: "\<forall>b \<in> set (ligatureMarks cA0 ! (3 - 1)). b \<in> set [t1, n2, t3] \<and> keyedFor 3 b"
    using ent[unfolded cA max, rule_format, of 3] by simp
  have l3: "length (ligatureMarks cA0) = 3" using len unfolding cA max .
  have no1: "\<forall>b \<in> set [t1, n2, t3]. \<not> nullFor 1 b"
    and no3: "\<forall>b \<in> set [t1, n2, t3]. \<not> nullFor 3 b"
    by (simp_all add: t1_def n2_def t3_def nullFor_def)
  have f1: "filter (keyedFor 1) [t1, n2, t3] = [t1]"
    and f3: "filter (keyedFor 3) [t1, n2, t3] = [t3]"
    by (simp_all add: t1_def n2_def t3_def keyedFor_def)
  have r1: "1 \<le> (1::nat) \<and> 1 \<le> Max (fst ` set cA)"
    and r3: "1 \<le> (3::nat) \<and> 3 \<le> Max (fst ` set cA)"
    by (simp_all add: cA max)
  from ent r1 have "(\<forall>b \<in> set [t1, n2, t3]. \<not> nullFor 1 b)
      \<longrightarrow> ligatureMarks cA ! (1 - 1) = filter (keyedFor 1) [t1, n2, t3]"
    by blast
  with no1 have "ligatureMarks cA ! (1 - 1) = filter (keyedFor 1) [t1, n2, t3]"
    by (rule rev_mp)
  then have first: "ligatureMarks cA0 ! 0 = [t1]"
    unfolding f1 cA by simp
  from ent r3 have "(\<forall>b \<in> set [t1, n2, t3]. \<not> nullFor 3 b)
      \<longrightarrow> ligatureMarks cA ! (3 - 1) = filter (keyedFor 3) [t1, n2, t3]"
    by blast
  with no3 have "ligatureMarks cA ! (3 - 1) = filter (keyedFor 3) [t1, n2, t3]"
    by (rule rev_mp)
  then have last: "ligatureMarks cA0 ! 2 = [t3]"
    unfolding f3 cA by simp
  have "ligatureMarks cA0 = [[t1], [], [t3]]"
  proof (rule nth_equalityI)
    show "length (ligatureMarks cA0) = length [[t1], [], [t3]]" using l3 by simp
    fix i assume "i < length (ligatureMarks cA0)"
    then have "i = 0 \<or> i = 1 \<or> i = 2" using l3 by auto
    then show "ligatureMarks cA0 ! i = [[t1], [], [t3]] ! i"
      using first second last by auto
  qed
  with run show ?thesis unfolding t1_def n2_def t3_def mc_def by simp
qed

text \<open>
  The claim C6 as the specification words it fails. In the glyph \<^verbatim>\<open>f_f\<close> with the
  anchors \<^verbatim>\<open>_1\<close>, \<^verbatim>\<open>top_1\<close> and \<^verbatim>\<open>top_2\<close>, in this order, the first component holds the
  anchor \<^verbatim>\<open>top_1\<close>, not the empty entry. A glyph whose only numbered anchor is
  contextual gets no attachment.
\<close>

theorem makeMarkToLigaAttachments_counterexample:
  "makeMarkToLigaAttachments [''tildecomb''] None
     [(''f_f'',
       [\<lparr>a_name = ''_1'', a_x = 0::int, a_y = 0, a_isMark = False, a_key = [],
          a_number = Some 1, a_markClass = None, a_isContextual = False,
          a_isIgnorable = False, a_libData = None\<rparr>,
        \<lparr>a_name = ''top_1'', a_x = 50, a_y = 500, a_isMark = False, a_key = ''top'',
          a_number = Some 1, a_markClass = Some (\<lparr>mc_name = ''MC_top'', mc_glyphs =
            [(''tildecomb'', \<lparr>anchor_x = 0, anchor_y = 0, contourpoint = None,
               xDeviceTable = None, yDeviceTable = None\<rparr>)]\<rparr>), a_isContextual = False,
          a_isIgnorable = False, a_libData = None\<rparr>,
        \<lparr>a_name = ''top_2'', a_x = 150, a_y = 500, a_isMark = False, a_key = ''top'',
          a_number = Some 2, a_markClass = Some (\<lparr>mc_name = ''MC_top'', mc_glyphs =
            [(''tildecomb'', \<lparr>anchor_x = 0, anchor_y = 0, contourpoint = None,
               xDeviceTable = None, yDeviceTable = None\<rparr>)]\<rparr>), a_isContextual = False,
          a_isIgnorable = False, a_libData = None\<rparr>])]
   = Inr [MarkToLigaPos ''f_f''
       [[\<lparr>a_name = ''top_1'', a_x = 50, a_y = 500, a_isMark = False, a_key = ''top'',
          a_number = Some 1, a_markClass = Some (\<lparr>mc_name = ''MC_top'', mc_glyphs =
            [(''tildecomb'', \<lparr>anchor_x = 0, anchor_y = 0, contourpoint = None,
               xDeviceTable = None, yDeviceTable = None\<rparr>)]\<rparr>), a_isContextual = False,
          a_isIgnorable = False, a_libData = None\<rparr>],
        [\<lparr>a_name = ''top_2'', a_x = 150, a_y = 500, a_isMark = False, a_key = ''top'',
          a_number = Some 2, a_markClass = Some (\<lparr>mc_name = ''MC_top'', mc_glyphs =
            [(''tildecomb'', \<lparr>anchor_x = 0, anchor_y = 0, contourpoint = None,
               xDeviceTable = None, yDeviceTable = None\<rparr>)]\<rparr>), a_isContextual = False,
          a_isIgnorable = False, a_libData = None\<rparr>]]]
   \<and> makeMarkToLigaAttachments [''tildecomb''] None
     [(''f_i'',
       [\<lparr>a_name = ''*top_1'', a_x = 50::int, a_y = 500, a_isMark = False, a_key = ''top'',
          a_number = Some 1, a_markClass = Some (\<lparr>mc_name = ''MC_top'', mc_glyphs =
            [(''tildecomb'', \<lparr>anchor_x = 0, anchor_y = 0, contourpoint = None,
               xDeviceTable = None, yDeviceTable = None\<rparr>)]\<rparr>), a_isContextual = True,
          a_isIgnorable = False, a_libData = Some [(''ctx'', ''* tildecomb'')]\<rparr>])]
   = Inr []"
  by (simp add: makeMarkToLigaAttachments_def ligaStep_def componentStep_def ligatureMarks_def)

subsection \<open>Filtered attachments\<close>

lemma mapE_list_all2: "mapE f xs = Inr ys \<Longrightarrow> list_all2 (\<lambda>x y. f x = Inr y) xs ys"
  by (induction xs arbitrary: ys) (auto split: sum.splits)

lemma mapE_length: "mapE f xs = Inr ys \<Longrightarrow> length ys = length xs"
  by (drule mapE_list_all2) (simp add: list_all2_lengthD)

lemma mapE_nth: "mapE f xs = Inr ys \<Longrightarrow> i < length xs \<Longrightarrow> f (xs ! i) = Inr (ys ! i)"
  by (drule mapE_list_all2) (erule list_all2_nthD, assumption)

lemma mapE_member:
  assumes "mapE f xs = Inr ys" and "y \<in> set ys"
  shows "\<exists>x \<in> set xs. f x = Inr y"
proof -
  from assms(2) obtain i where i: "i < length ys" "ys ! i = y"
    by (auto simp: in_set_conv_nth)
  then have "i < length xs" using mapE_length[OF assms(1)] by simp
  then have "f (xs ! i) = Inr y" "xs ! i \<in> set xs"
    using mapE_nth[OF assms(1)] i(2) by simp_all
  then show ?thesis by blast
qed

lemma filterE_sound:
  "filterE p xs = Inr ys \<Longrightarrow> y \<in> set ys \<Longrightarrow> y \<in> set xs \<and> p y = Inr True"
  by (induction xs arbitrary: ys) (auto split: sum.splits if_splits)

lemma filterPos_sound:
  assumes "filterPos p pos = Inr (Some pos')" and "a \<in> set (posAnchors pos')"
  shows "a \<in> set (posAnchors pos) \<and> p a = Inr True"
proof (cases pos)
  case (MarkToBasePos name marks)
  with assms(1) obtain ms where "filterE p marks = Inr ms" "pos' = MarkToBasePos name ms"
    by (auto simp: filterPos_def split: sum.splits if_splits)
  then show ?thesis using assms(2) filterE_sound[of p marks ms a] MarkToBasePos
    by (simp add: posAnchors_def)
next
  case (MarkToMarkPos name marks)
  with assms(1) obtain ms where "filterE p marks = Inr ms" "pos' = MarkToMarkPos name ms"
    by (auto simp: filterPos_def split: sum.splits if_splits)
  then show ?thesis using assms(2) filterE_sound[of p marks ms a] MarkToMarkPos
    by (simp add: posAnchors_def)
next
  case (MarkToLigaPos name marks)
  with assms(1) obtain ms where ms: "mapE (filterE p) marks = Inr ms"
    and pos': "pos' = MarkToLigaPos name ms"
    by (auto simp: filterPos_def split: sum.splits if_splits)
  from assms(2) pos' obtain component' where c': "component' \<in> set ms" "a \<in> set component'"
    by (auto simp: posAnchors_def)
  from mapE_member[OF ms c'(1)] obtain component where
    c: "component \<in> set marks" "filterE p component = Inr component'" by blast
  from filterE_sound[OF c(2) c'(2)] have "a \<in> set component" "p a = Inr True" by simp_all
  then show ?thesis using c(1) MarkToLigaPos by (auto simp: posAnchors_def)
qed

lemma includeAnchor_True:
  "includeAnchor markClasses a = Inr True
     \<Longrightarrow> \<exists>mc. a_markClass a = Some mc \<and> mc_name mc \<in> set markClasses"
  by (auto simp: includeAnchor_def anchorMarkClass_def split: option.splits)

text \<open>A mark of a lookup is a mark of an attachment, and its class is in the group.\<close>

lemma makeLookup_sound:
  assumes "makeLookup markClasses attachments = Inr lookup"
    and "a \<in> set (lookupAnchors lookup)"
  shows "a \<in> set (lookupAnchors attachments)
       \<and> (\<exists>mc. a_markClass a = Some mc \<and> mc_name mc \<in> set markClasses)"
proof -
  from assms(1) obtain filtered where
    f: "mapE (filterPos (includeAnchor markClasses)) attachments = Inr filtered"
    and l: "lookup = List.map_filter (\<lambda>x. x) filtered"
    by (auto simp: makeLookup_def split: sum.splits)
  from assms(2) obtain pos' where p': "pos' \<in> set lookup" "a \<in> set (posAnchors pos')"
    by (auto simp: lookupAnchors_def)
  from p'(1) have "Some pos' \<in> set filtered"
    unfolding l by (auto simp: List.map_filter_def)
  from mapE_member[OF f this] obtain pos where
    p: "pos \<in> set attachments" "filterPos (includeAnchor markClasses) pos = Inr (Some pos')"
    by blast
  from filterPos_sound[OF p(2) p'(2)]
  have "a \<in> set (posAnchors pos)" "includeAnchor markClasses a = Inr True" by simp_all
  then show ?thesis using p(1) includeAnchor_True by (auto simp: lookupAnchors_def)
qed

text \<open>A lookup that is returned is the restriction of the attachments to its group.\<close>

lemma filterE_exact: "filterE p xs = Inr ys \<Longrightarrow> ys = filter (\<lambda>x. p x = Inr True) xs"
  by (induction xs arbitrary: ys) (auto split: sum.splits if_splits)

lemma includeAnchor_keep: "includeAnchor G a = Inr True \<longleftrightarrow> keepAnchor G a"
  by (simp add: includeAnchor_def anchorMarkClass_def keepAnchor_def split: option.splits)

lemma filterE_include:
  "filterE (includeAnchor G) xs = Inr ys \<Longrightarrow> ys = filter (keepAnchor G) xs"
  by (drule filterE_exact) (simp add: includeAnchor_keep)

lemma mapE_exact:
  "mapE f xs = Inr ys \<Longrightarrow> (\<And>x y. x \<in> set xs \<Longrightarrow> f x = Inr y \<Longrightarrow> y = g x)
     \<Longrightarrow> ys = map g xs"
proof (induction xs arbitrary: ys)
  case Nil
  then show ?case by simp
next
  case (Cons x xs)
  from Cons.prems(1) obtain y ys' where y: "f x = Inr y" and r: "mapE f xs = Inr ys'"
    and ys: "ys = y # ys'"
    by (auto split: sum.splits)
  have "y = g x" using Cons.prems(2)[of x y] y by simp
  moreover have "ys' = map g xs" using r Cons.prems(2) by (intro Cons.IH) auto
  ultimately show ?case using ys by simp
qed

lemma filterPos_restrict:
  assumes "filterPos (includeAnchor G) pos = Inr r"
  shows "r = restrictPos G pos"
proof (cases pos)
  case (MarkToBasePos name marks)
  with assms obtain ms where ms: "filterE (includeAnchor G) marks = Inr ms"
    and r: "r = (if ms \<noteq> [] then Some (MarkToBasePos name ms) else None)"
    by (auto simp: filterPos_def split: sum.splits)
  show ?thesis unfolding r filterE_include[OF ms] MarkToBasePos by (simp add: restrictPos_def)
next
  case (MarkToMarkPos name marks)
  with assms obtain ms where ms: "filterE (includeAnchor G) marks = Inr ms"
    and r: "r = (if ms \<noteq> [] then Some (MarkToMarkPos name ms) else None)"
    by (auto simp: filterPos_def split: sum.splits)
  show ?thesis unfolding r filterE_include[OF ms] MarkToMarkPos by (simp add: restrictPos_def)
next
  case (MarkToLigaPos name marks)
  with assms obtain ms where ms: "mapE (filterE (includeAnchor G)) marks = Inr ms"
    and r: "r = (if (\<exists>component \<in> set ms. component \<noteq> [])
                 then Some (MarkToLigaPos name ms) else None)"
    by (auto simp: filterPos_def split: sum.splits)
  have "ms = map (filter (keepAnchor G)) marks"
    using ms by (rule mapE_exact) (rule filterE_include)
  then show ?thesis unfolding r MarkToLigaPos by (simp add: restrictPos_def)
qed

lemma makeLookup_restrict:
  assumes "makeLookup G attachments = Inr lookup"
  shows "lookup = restrictLookup G attachments"
proof -
  from assms obtain filtered where
    f: "mapE (filterPos (includeAnchor G)) attachments = Inr filtered"
    and l: "lookup = List.map_filter (\<lambda>x. x) filtered"
    by (auto simp: makeLookup_def split: sum.splits)
  have "filtered = map (restrictPos G) attachments"
    using f by (rule mapE_exact) (rule filterPos_restrict)
  then show ?thesis unfolding l restrictLookup_def
    by (simp add: List.map_filter_def filter_map comp_def)
qed

lemma lookups_restrict:
  assumes "mapE (\<lambda>markClasses. makeLookup markClasses attachments) grouped = Inr lookups"
  shows "lookups = map (\<lambda>markClasses. restrictLookup markClasses attachments) grouped"
  using assms by (rule mapE_exact) (rule makeLookup_restrict)

text \<open>A lookup made for a single class satisfies the invariant.\<close>

lemma makeLookup_single_invariant:
  assumes "makeLookup [name] attachments = Inr lookup"
  shows "lookupInvariant lookup"
  unfolding lookupInvariant_def
proof (intro ballI)
  fix a1 a2
  assume a: "a1 \<in> set (lookupAnchors lookup)" "a2 \<in> set (lookupAnchors lookup)"
  from makeLookup_sound[OF assms a(1)] obtain mc1 where
    "a_markClass a1 = Some mc1" "mc_name mc1 = name" by auto
  moreover from makeLookup_sound[OF assms a(2)] obtain mc2 where
    "a_markClass a2 = Some mc2" "mc_name mc2 = name" by auto
  ultimately show "case a_markClass a1 of None \<Rightarrow> True
      | Some mc1 \<Rightarrow>
          (case a_markClass a2 of None \<Rightarrow> True
           | Some mc2 \<Rightarrow>
               (\<exists>glyph \<in> fst ` set (mc_glyphs mc1). glyph \<in> fst ` set (mc_glyphs mc2))
                 \<longrightarrow> mc_name mc1 = mc_name mc2)"
    by simp
qed

lemma groupAttachments_disabled:
  assumes "groupAttachments False contextMarkClasses attachments = Inr lookups"
  shows "mapE (\<lambda>markClasses. makeLookup markClasses attachments)
           (map (\<lambda>item. [mc_name (snd item)]) (sort_key fst contextMarkClasses)) = Inr lookups"
  using assms by (simp add: groupAttachments_def)

subsection \<open>One lookup per mark class, in the order of the keys\<close>

text \<open>
  Claim C5, as the code has it. Without the option \<^verbatim>\<open>groupMarkClasses\<close> there is one
  lookup for each entry of the dictionary of mark classes, which has one entry per
  anchor key. The lookups follow the entries sorted by their keys; the lookup of an
  entry is the restriction of the attachments to the name of the mark class of the
  entry. So for two entries the lookup of the smaller key comes first, and a key
  is smaller than each of its proper extensions.
\<close>

theorem groupAttachments_one_lookup_per_key:
  assumes "groupAttachments False contextMarkClasses attachments = Inr lookups"
  shows "length lookups = length contextMarkClasses
       \<and> lookups = map (\<lambda>item. restrictLookup [mc_name (snd item)] attachments)
                       (sort_key fst contextMarkClasses)
       \<and> sorted (map fst (sort_key fst contextMarkClasses))
       \<and> (\<forall>i < length lookups.
             makeLookup [mc_name (snd (sort_key fst contextMarkClasses ! i))] attachments
               = Inr (lookups ! i))
       \<and> ((key1, mc1) \<in> set contextMarkClasses \<and> (key2, mc2) \<in> set contextMarkClasses
             \<and> key1 < key2
           \<longrightarrow> (\<exists>i j. i < j \<and> j < length lookups
                  \<and> makeLookup [mc_name mc1] attachments = Inr (lookups ! i)
                  \<and> makeLookup [mc_name mc2] attachments = Inr (lookups ! j)))
       \<and> (suffix \<noteq> [] \<longrightarrow> key < key @ suffix)"
proof -
  let ?items = "sort_key fst contextMarkClasses"
  let ?grouped = "map (\<lambda>item. [mc_name (snd item)]) ?items"
  have m: "mapE (\<lambda>markClasses. makeLookup markClasses attachments) ?grouped = Inr lookups"
    using assms by (rule groupAttachments_disabled)
  have len: "length lookups = length contextMarkClasses"
    using mapE_length[OF m] by simp
  have srt: "sorted (map fst ?items)" by simp
  have nth: "makeLookup [mc_name (snd (?items ! i))] attachments = Inr (lookups ! i)"
    if "i < length lookups" for i
  proof -
    have "i < length ?grouped" using that len by simp
    from mapE_nth[OF m this] show ?thesis using that len by simp
  qed
  have order: "\<exists>i j. i < j \<and> j < length lookups
        \<and> makeLookup [mc_name mc1] attachments = Inr (lookups ! i)
        \<and> makeLookup [mc_name mc2] attachments = Inr (lookups ! j)"
    if h: "(key1, mc1) \<in> set contextMarkClasses \<and> (key2, mc2) \<in> set contextMarkClasses
             \<and> key1 < key2"
  proof -
    from h have "(key1, mc1) \<in> set ?items" "(key2, mc2) \<in> set ?items" by simp_all
    then have "\<exists>i < length ?items. ?items ! i = (key1, mc1)"
      "\<exists>j < length ?items. ?items ! j = (key2, mc2)"
      unfolding in_set_conv_nth by blast+
    then obtain i j where i: "i < length ?items" "?items ! i = (key1, mc1)"
      and j: "j < length ?items" "?items ! j = (key2, mc2)"
      by blast
    have "i < j"
    proof (rule ccontr)
      assume "\<not> i < j"
      then have "j \<le> i" by simp
      then have "map fst ?items ! j \<le> map fst ?items ! i"
        using srt i(1) by (intro sorted_nth_mono) simp_all
      then have "key2 \<le> key1" using i j by simp
      moreover have "key1 < key2" using h by blast
      ultimately show False using leD by blast
    qed
    moreover have "j < length lookups" using j(1) len by simp
    moreover have "makeLookup [mc_name mc1] attachments = Inr (lookups ! i)"
      using nth[of i] i len by simp
    moreover have "makeLookup [mc_name mc2] attachments = Inr (lookups ! j)"
      using nth[of j] j len by simp
    ultimately show ?thesis by blast
  qed
  have ext: "key < key @ suffix" if "suffix \<noteq> []"
    using that by (induction key) (auto simp: neq_Nil_conv)
  have exact: "lookups = map (\<lambda>item. restrictLookup [mc_name (snd item)] attachments) ?items"
    using lookups_restrict[OF m] by (simp add: comp_def)
  show ?thesis
  proof (intro conjI allI impI)
    show "length lookups = length contextMarkClasses" by (rule len)
    show "lookups = map (\<lambda>item. restrictLookup [mc_name (snd item)] attachments) ?items"
      by (rule exact)
    show "sorted (map fst ?items)" by (rule srt)
    show "makeLookup [mc_name (snd (?items ! i))] attachments = Inr (lookups ! i)"
      if "i < length lookups" for i using that by (rule nth)
    show "\<exists>i j. i < j \<and> j < length lookups
        \<and> makeLookup [mc_name mc1] attachments = Inr (lookups ! i)
        \<and> makeLookup [mc_name mc2] attachments = Inr (lookups ! j)"
      if "(key1, mc1) \<in> set contextMarkClasses \<and> (key2, mc2) \<in> set contextMarkClasses
             \<and> key1 < key2"
      using that by (rule order)
    show "key < key @ suffix" if "suffix \<noteq> []" using that by (rule ext)
  qed
qed

subsection \<open>The conflict graph of the mark classes\<close>

lemma covers_addGlyphClass:
  "covers (addGlyphClass n d g) g' n' \<longleftrightarrow> covers d g' n' \<or> (g' = g \<and> n' = n)"
  by (cases "map_of d g") (auto simp: covers_def addGlyphClass_def update_conv')

lemma covers_foldl_add:
  "covers (foldl (addGlyphClass n) d gs) g' n' \<longleftrightarrow> covers d g' n' \<or> (g' \<in> set gs \<and> n' = n)"
  by (induction gs arbitrary: d) (auto simp: covers_addGlyphClass)

lemma covers_step:
  assumes "glyphClassesStep d a = Inr d'"
  shows "covers d' g n \<longleftrightarrow> covers d g n
           \<or> (\<exists>mc. a_markClass a = Some mc \<and> g \<in> fst ` set (mc_glyphs mc) \<and> n = mc_name mc)"
proof -
  from assms obtain mc where mc: "a_markClass a = Some mc"
    and d': "d' = foldl (addGlyphClass (mc_name mc)) d (map fst (mc_glyphs mc))"
    by (auto simp: glyphClassesStep_def anchorMarkClass_def split: option.splits)
  show ?thesis unfolding d' covers_foldl_add using mc by auto
qed

lemma covers_run:
  "foldE glyphClassesStep d as = Inr d'
     \<Longrightarrow> covers d' g n \<longleftrightarrow> covers d g n
           \<or> (\<exists>a \<in> set as. \<exists>mc. a_markClass a = Some mc \<and> g \<in> fst ` set (mc_glyphs mc)
                 \<and> n = mc_name mc)"
proof (induction as arbitrary: d)
  case Nil
  then show ?case by simp
next
  case (Cons a as)
  from foldE_Cons_Inr[OF Cons.prems] obtain d1 where
    s: "glyphClassesStep d a = Inr d1" and r: "foldE glyphClassesStep d1 as = Inr d'"
    by auto
  show ?case unfolding Cons.IH[OF r] covers_step[OF s] by auto
qed

lemma covers_merge:
  "covers (mergeGlyphClasses d (g, s)) g' n' \<longleftrightarrow> covers d g' n' \<or> (g' = g \<and> n' \<in> set s)"
  by (cases "map_of d g") (auto simp: covers_def mergeGlyphClasses_def update_conv')

lemma covers_foldl_merge:
  "covers (foldl mergeGlyphClasses d items) g n
     \<longleftrightarrow> covers d g n \<or> (\<exists>s. (g, s) \<in> set items \<and> n \<in> set s)"
proof (induction items arbitrary: d)
  case Nil
  then show ?case by simp
next
  case (Cons item items)
  obtain g0 s0 where item: "item = (g0, s0)" by (cases item)
  show ?case unfolding item foldl_Cons Cons.IH covers_merge by auto
qed

lemma covers_collect:
  assumes "foldE (\<lambda>d attachment.
              case getMarkGlyphToMarkClasses attachment of
                Inl e \<Rightarrow> Inl e
              | Inr items \<Rightarrow> Inr (foldl mergeGlyphClasses d items)) d attachments = Inr m"
    and "covers d g n \<or> (\<exists>pos \<in> set attachments. \<exists>a \<in> set (posAnchors pos). \<exists>mc.
            a_markClass a = Some mc \<and> g \<in> fst ` set (mc_glyphs mc) \<and> n = mc_name mc)"
  shows "covers m g n"
  using assms
proof (induction attachments arbitrary: d)
  case Nil
  then show ?case by simp
next
  case (Cons pos attachments)
  let ?F = "\<lambda>d attachment.
              case getMarkGlyphToMarkClasses attachment of
                Inl e \<Rightarrow> Inl e
              | Inr items \<Rightarrow> Inr (foldl mergeGlyphClasses d items)"
  from foldE_Cons_Inr[OF Cons.prems(1)] obtain d1 where
    s: "?F d pos = Inr d1" and r: "foldE ?F d1 attachments = Inr m" by auto
  from s obtain items where items: "getMarkGlyphToMarkClasses pos = Inr items"
    and d1: "d1 = foldl mergeGlyphClasses d items"
    by (auto split: sum.splits)
  have here: "covers d1 g n"
    if "\<exists>a \<in> set (posAnchors pos). \<exists>mc.
          a_markClass a = Some mc \<and> g \<in> fst ` set (mc_glyphs mc) \<and> n = mc_name mc"
  proof -
    have "covers items g n"
      using covers_run[OF items[unfolded getMarkGlyphToMarkClasses_def], of g n] that by blast
    then obtain s where "(g, s) \<in> set items" "n \<in> set s"
      unfolding covers_def by (auto dest: map_of_SomeD)
    then show ?thesis unfolding d1 covers_foldl_merge by blast
  qed
  have old: "covers d1 g n" if "covers d g n"
    using that unfolding d1 covers_foldl_merge by blast
  from Cons.prems(2) have "covers d1 g n \<or> (\<exists>pos \<in> set attachments. \<exists>a \<in> set (posAnchors pos).
      \<exists>mc. a_markClass a = Some mc \<and> g \<in> fst ` set (mc_glyphs mc) \<and> n = mc_name mc)"
    using here old by auto
  with r show ?case by (rule Cons.IH)
qed

lemma collectGlyphClasses_covers:
  assumes "collectGlyphClasses attachments = Inr m"
    and "a \<in> set (lookupAnchors attachments)" and "a_markClass a = Some mc"
    and "g \<in> fst ` set (mc_glyphs mc)"
  shows "covers m g (mc_name mc)"
proof -
  from assms(2) obtain pos where "pos \<in> set attachments" "a \<in> set (posAnchors pos)"
    by (auto simp: lookupAnchors_def)
  then have "\<exists>pos \<in> set attachments. \<exists>a \<in> set (posAnchors pos). \<exists>mc'.
      a_markClass a = Some mc' \<and> g \<in> fst ` set (mc_glyphs mc') \<and> mc_name mc = mc_name mc'"
    using assms(3,4) by blast
  then show ?thesis
    using assms(1) unfolding collectGlyphClasses_def by (intro covers_collect) auto
qed

lemma combinations2_mem:
  "x \<in> set xs \<Longrightarrow> y \<in> set xs \<Longrightarrow> x \<noteq> y
     \<Longrightarrow> (x, y) \<in> set (combinations2 xs) \<or> (y, x) \<in> set (combinations2 xs)"
  by (induction xs) auto

lemma combinations2_set:
  "(x, y) \<in> set (combinations2 xs) \<Longrightarrow> x \<in> set xs \<and> y \<in> set xs"
  by (induction xs) auto

lemma neighbours_update:
  "neighbours (AList.update k v al) u = (if u = k then set v else neighbours al u)"
  by (simp add: neighbours_def update_conv')

lemma init_graph:
  "distinct (map fst A) \<Longrightarrow> \<forall>u. neighbours A u = {}
     \<Longrightarrow> distinct (map fst (foldl (\<lambda>adjacency markClass. AList.update markClass [] adjacency) A names))
       \<and> fst ` set (foldl (\<lambda>adjacency markClass. AList.update markClass [] adjacency) A names)
           = fst ` set A \<union> set names
       \<and> (\<forall>u. neighbours
                 (foldl (\<lambda>adjacency markClass. AList.update markClass [] adjacency) A names) u
               = {})"
proof (induction names arbitrary: A)
  case Nil
  then show ?case by simp
next
  case (Cons name names)
  have "distinct (map fst (AList.update name [] A))"
    using Cons.prems(1) by (rule distinct_update)
  moreover have "\<forall>u. neighbours (AList.update name [] A) u = {}"
    using Cons.prems(2) by (simp add: neighbours_update)
  ultimately show ?case
    using Cons.IH[of "AList.update name [] A"] by (auto simp: dom_update)
qed

lemma addEdge_keys: "fst ` set (addEdge A e) = fst ` set A"
  by (cases e) (simp add: addEdge_def dom_map_entry)

lemma addEdge_distinct: "distinct (map fst A) \<Longrightarrow> distinct (map fst (addEdge A e))"
  by (cases e) (simp add: addEdge_def distinct_map_entry)

lemma neighbours_map_entry:
  "neighbours (AList.map_entry k (List.insert v) al) u
     = neighbours al u \<union> (if u = k \<and> k \<in> fst ` set al then {v} else {})"
proof (cases "map_of al k")
  case None
  then have "k \<notin> fst ` set al" by (simp add: map_of_eq_None_iff)
  then show ?thesis using None by (simp add: neighbours_def map_of_map_entry)
next
  case (Some l)
  then have "k \<in> fst ` set al" by (metis map_of_eq_None_iff option.distinct(1))
  then show ?thesis using Some by (auto simp: neighbours_def map_of_map_entry)
qed

lemma addEdge_neighbours:
  "neighbours (addEdge A (a, b)) u
     = neighbours A u \<union> (if u = a \<and> a \<in> fst ` set A then {b} else {})
         \<union> (if u = b \<and> b \<in> fst ` set A then {a} else {})"
  by (simp add: addEdge_def neighbours_map_entry dom_map_entry)

lemma foldl_addEdge:
  "fst ` set (foldl addEdge A ps) = fst ` set A
   \<and> (distinct (map fst A) \<longrightarrow> distinct (map fst (foldl addEdge A ps)))
   \<and> neighbours (foldl addEdge A ps) u
       = neighbours A u \<union> {v. u \<in> fst ` set A \<and> ((u, v) \<in> set ps \<or> (v, u) \<in> set ps)}"
proof (induction ps arbitrary: A)
  case Nil
  then show ?case by simp
next
  case (Cons p ps)
  obtain a b where p: "p = (a, b)" by (cases p)
  have k: "fst ` set (addEdge A p) = fst ` set A" by (rule addEdge_keys)
  have n: "neighbours (addEdge A p) u
     = neighbours A u \<union> (if u = a \<and> a \<in> fst ` set A then {b} else {})
         \<union> (if u = b \<and> b \<in> fst ` set A then {a} else {})"
    unfolding p by (rule addEdge_neighbours)
  from Cons.IH[of "addEdge A p"]
  have 1: "fst ` set (foldl addEdge (addEdge A p) ps) = fst ` set (addEdge A p)"
    and 2: "distinct (map fst (addEdge A p))
              \<longrightarrow> distinct (map fst (foldl addEdge (addEdge A p) ps))"
    and 3: "neighbours (foldl addEdge (addEdge A p) ps) u
       = neighbours (addEdge A p) u
           \<union> {v. u \<in> fst ` set (addEdge A p) \<and> ((u, v) \<in> set ps \<or> (v, u) \<in> set ps)}"
    by blast+
  have "fst ` set (foldl addEdge A (p # ps)) = fst ` set A" using 1 k by simp
  moreover have "distinct (map fst A) \<longrightarrow> distinct (map fst (foldl addEdge A (p # ps)))"
    using 2 addEdge_distinct[of A p] by simp
  moreover have "neighbours (foldl addEdge A (p # ps)) u
       = neighbours A u \<union> {v. u \<in> fst ` set A \<and> ((u, v) \<in> set (p # ps) \<or> (v, u) \<in> set (p # ps))}"
  proof -
    have "neighbours (foldl addEdge A (p # ps)) u
        = neighbours (foldl addEdge (addEdge A p) ps) u" by simp
    also have "\<dots> = neighbours (addEdge A p) u
           \<union> {v. u \<in> fst ` set (addEdge A p) \<and> ((u, v) \<in> set ps \<or> (v, u) \<in> set ps)}"
      by (rule 3)
    also have "\<dots> = (neighbours A u \<union> (if u = a \<and> a \<in> fst ` set A then {b} else {})
             \<union> (if u = b \<and> b \<in> fst ` set A then {a} else {}))
           \<union> {v. u \<in> fst ` set A \<and> ((u, v) \<in> set ps \<or> (v, u) \<in> set ps)}"
      by (simp only: n k)
    also have "\<dots> = neighbours A u
           \<union> {v. u \<in> fst ` set A
                 \<and> ((u, v) \<in> set ((a, b) # ps) \<or> (v, u) \<in> set ((a, b) # ps))}"
      by auto
    finally show ?thesis unfolding p .
  qed
  ultimately show ?case by blast
qed

lemma conflictGraph_props:
  "distinct (map fst (conflictGraph m))
   \<and> fst ` set (conflictGraph m) = set (concat (map snd m))
   \<and> neighbours (conflictGraph m) u
       = {v. u \<in> set (concat (map snd m))
             \<and> ((u, v) \<in> set (concat (map (\<lambda>item. combinations2 (snd item)) m))
                \<or> (v, u) \<in> set (concat (map (\<lambda>item. combinations2 (snd item)) m)))}"
proof -
  let ?names = "concat (map snd m)"
  let ?A0 = "foldl (\<lambda>adjacency markClass. AList.update markClass ([]::string list) adjacency)
    [] ?names"
  let ?ps = "concat (map (\<lambda>item. combinations2 (snd item)) m)"
  have "distinct (map fst ([]::(string \<times> string list) list))"
    "\<forall>u. neighbours ([]::(string \<times> string list) list) u = {}"
    by (simp_all add: neighbours_def)
  from init_graph[OF this, of ?names]
  have d0: "distinct (map fst ?A0)" and k0: "fst ` set ?A0 = set ?names"
    and n0: "\<forall>u. neighbours ?A0 u = {}"
    by auto
  from foldl_addEdge[of ?A0 ?ps u]
  have "fst ` set (foldl addEdge ?A0 ?ps) = fst ` set ?A0"
    "distinct (map fst (foldl addEdge ?A0 ?ps))"
    "neighbours (foldl addEdge ?A0 ?ps) u
       = neighbours ?A0 u \<union> {v. u \<in> fst ` set ?A0 \<and> ((u, v) \<in> set ?ps \<or> (v, u) \<in> set ?ps)}"
    using d0 by blast+
  then show ?thesis unfolding conflictGraph_def using k0 n0 by simp
qed

lemma neighbours_entry:
  "distinct (map fst A) \<Longrightarrow> (u, nu) \<in> set A \<Longrightarrow> neighbours A u = set nu"
  by (simp add: neighbours_def)

lemma conflictGraph_symmetric: "symmetric_adj (conflictGraph m)"
  unfolding symmetric_adj_def
proof (clarify)
  fix u nu v nv
  assume u: "(u, nu) \<in> set (conflictGraph m)" and v: "(v, nv) \<in> set (conflictGraph m)"
    and vu: "v \<in> set nu"
  note P = conflictGraph_props[of m]
  have d: "distinct (map fst (conflictGraph m))" using P by blast
  have "v \<in> neighbours (conflictGraph m) u" using neighbours_entry[OF d u] vu by simp
  then have e: "(u, v) \<in> set (concat (map (\<lambda>item. combinations2 (snd item)) m))
      \<or> (v, u) \<in> set (concat (map (\<lambda>item. combinations2 (snd item)) m))"
    using conflictGraph_props[of m u] by blast
  have "v \<in> fst ` set (conflictGraph m)" using v by force
  then have "v \<in> set (concat (map snd m))" using P by blast
  then have "u \<in> neighbours (conflictGraph m) v"
    using e conflictGraph_props[of m v] by blast
  then show "u \<in> set nv" using neighbours_entry[OF d v] by simp
qed

lemma conflictGraph_adjacent:
  assumes "(g, s) \<in> set m" and "n1 \<in> set s" and "n2 \<in> set s" and "n1 \<noteq> n2"
  shows "adjacent (conflictGraph m) n1 n2"
proof -
  note P = conflictGraph_props[of m n1]
  have names: "n1 \<in> set (concat (map snd m))" using assms(1,2) by force
  then have "n1 \<in> fst ` set (conflictGraph m)" using P by blast
  then obtain nu where nu: "(n1, nu) \<in> set (conflictGraph m)" by auto
  have "(n1, n2) \<in> set (combinations2 s) \<or> (n2, n1) \<in> set (combinations2 s)"
    using assms(2,3,4) by (rule combinations2_mem)
  then have "(n1, n2) \<in> set (concat (map (\<lambda>item. combinations2 (snd item)) m))
      \<or> (n2, n1) \<in> set (concat (map (\<lambda>item. combinations2 (snd item)) m))"
    using assms(1) by force
  then have "n2 \<in> neighbours (conflictGraph m) n1" using P names by blast
  moreover have "neighbours (conflictGraph m) n1 = set nu"
    using P nu by (intro neighbours_entry) blast+
  ultimately show ?thesis using nu unfolding adjacent_def by blast
qed

lemma groupMarkClasses_groups:
  assumes "groupMarkClasses m = Inr grouped" and "G \<in> set grouped"
  shows "\<exists>cg \<in> set (colorGraph (conflictGraph m)). set G = set cg"
proof -
  let ?groups = "map sort (colorGraph (conflictGraph m))"
  from assms(1) obtain keys where k: "mapE groupSortKey ?groups = Inr keys"
    and g: "grouped = map snd (sort_key fst (zip keys ?groups))"
    by (auto simp: groupMarkClasses_def Let_def split: sum.splits)
  have "length keys = length ?groups" using k by (rule mapE_length)
  then have "map snd (zip keys ?groups) = ?groups" by simp
  moreover have "set grouped = set (map snd (zip keys ?groups))"
    unfolding g by simp
  ultimately have "G \<in> set ?groups" using assms(2) by simp
  then show ?thesis by auto
qed

text \<open>
  The mark classes that are grouped are those of the marks of the attachments that
  hold a glyph; no class is lost by the grouping.
\<close>

lemma covers_mem:
  "distinct (map fst d) \<Longrightarrow> covers d g n \<longleftrightarrow> (\<exists>s. (g, s) \<in> set d \<and> n \<in> set s)"
  by (simp add: covers_def)

lemma foldl_addGlyphClass_distinct:
  "distinct (map fst d) \<Longrightarrow> distinct (map fst (foldl (addGlyphClass n) d gs))"
  by (induction gs arbitrary: d) (simp_all add: addGlyphClass_def distinct_update)

lemma glyphClasses_distinct:
  "foldE glyphClassesStep d as = Inr d' \<Longrightarrow> distinct (map fst d) \<Longrightarrow> distinct (map fst d')"
proof (induction as arbitrary: d)
  case Nil
  then show ?case by simp
next
  case (Cons a as)
  from foldE_Cons_Inr[OF Cons.prems(1)] obtain d1 where
    s: "glyphClassesStep d a = Inr d1" and r: "foldE glyphClassesStep d1 as = Inr d'"
    by auto
  from s obtain mc where mc: "a_markClass a = Some mc"
    and d1: "d1 = foldl (addGlyphClass (mc_name mc)) d (map fst (mc_glyphs mc))"
    by (auto simp: glyphClassesStep_def anchorMarkClass_def split: option.splits)
  have "distinct (map fst d1)"
    unfolding d1 using Cons.prems(2) by (rule foldl_addGlyphClass_distinct)
  with r show ?case by (rule Cons.IH)
qed

lemma foldl_merge_distinct:
  "distinct (map fst d) \<Longrightarrow> distinct (map fst (foldl mergeGlyphClasses d items))"
  by (induction items arbitrary: d)
     (auto simp: mergeGlyphClasses_def distinct_update split: prod.splits)

lemma covers_collect_iff:
  assumes "foldE (\<lambda>d attachment.
              case getMarkGlyphToMarkClasses attachment of
                Inl e \<Rightarrow> Inl e
              | Inr items \<Rightarrow> Inr (foldl mergeGlyphClasses d items)) d attachments = Inr m"
    and "distinct (map fst d)"
  shows "distinct (map fst m)
       \<and> (covers m g n \<longleftrightarrow> covers d g n
            \<or> (\<exists>pos \<in> set attachments. \<exists>a \<in> set (posAnchors pos). \<exists>mc.
                  a_markClass a = Some mc \<and> g \<in> fst ` set (mc_glyphs mc) \<and> n = mc_name mc))"
  using assms
proof (induction attachments arbitrary: d)
  case Nil
  then show ?case by simp
next
  case (Cons pos attachments)
  let ?F = "\<lambda>d attachment.
              case getMarkGlyphToMarkClasses attachment of
                Inl e \<Rightarrow> Inl e
              | Inr items \<Rightarrow> Inr (foldl mergeGlyphClasses d items)"
  let ?P = "\<lambda>pos. \<exists>a \<in> set (posAnchors pos). \<exists>mc.
          a_markClass a = Some mc \<and> g \<in> fst ` set (mc_glyphs mc) \<and> n = mc_name mc"
  from foldE_Cons_Inr[OF Cons.prems(1)] obtain d1 where
    s: "?F d pos = Inr d1" and r: "foldE ?F d1 attachments = Inr m" by auto
  from s obtain items where items: "getMarkGlyphToMarkClasses pos = Inr items"
    and d1: "d1 = foldl mergeGlyphClasses d items"
    by (auto split: sum.splits)
  note run = items[unfolded getMarkGlyphToMarkClasses_def]
  have di: "distinct (map fst items)" using run by (rule glyphClasses_distinct) simp
  have ci: "covers items g n \<longleftrightarrow> ?P pos"
    using covers_run[OF run, of g n] by (simp add: covers_def)
  have dd: "distinct (map fst d1)"
    unfolding d1 using Cons.prems(2) by (rule foldl_merge_distinct)
  have c1: "covers d1 g n \<longleftrightarrow> covers d g n \<or> ?P pos"
    unfolding d1 covers_foldl_merge covers_mem[OF di, symmetric] ci ..
  from Cons.IH[OF r dd] have dm: "distinct (map fst m)"
    and cm: "covers m g n \<longleftrightarrow> covers d1 g n \<or> (\<exists>pos \<in> set attachments. ?P pos)"
    by blast+
  have "covers m g n \<longleftrightarrow> covers d g n \<or> (\<exists>p \<in> set (pos # attachments). ?P p)"
    unfolding cm c1 by auto
  with dm show ?case by blast
qed

lemma collectGlyphClasses_names:
  assumes "collectGlyphClasses attachments = Inr m"
  shows "set (concat (map snd m))
           = {name. \<exists>anchor \<in> set (lookupAnchors attachments). \<exists>markClass.
                a_markClass anchor = Some markClass \<and> mc_glyphs markClass \<noteq> []
                \<and> name = mc_name markClass}"
proof -
  have e: "distinct (map fst ([]::(string \<times> string list) list))" by simp
  note C = covers_collect_iff[OF assms[unfolded collectGlyphClasses_def] e]
  have dm: "distinct (map fst m)" using C by blast
  have cm: "covers m g n \<longleftrightarrow> (\<exists>pos \<in> set attachments. \<exists>a \<in> set (posAnchors pos). \<exists>mc.
      a_markClass a = Some mc \<and> g \<in> fst ` set (mc_glyphs mc) \<and> n = mc_name mc)" for g n
  proof -
    have "\<not> covers [] g n" by (simp add: covers_def)
    with C[of g n] show ?thesis by blast
  qed
  have ne: "mc_glyphs mc \<noteq> [] \<longleftrightarrow> (\<exists>g. g \<in> fst ` set (mc_glyphs mc))" for mc :: MarkClass
    by (cases "mc_glyphs mc") auto
  show ?thesis
  proof (intro set_eqI iffI)
    fix n assume "n \<in> set (concat (map snd m))"
    then obtain g s where "(g, s) \<in> set m" "n \<in> set s" by auto
    then have "covers m g n" using covers_mem[OF dm] by blast
    then obtain pos a mc where "pos \<in> set attachments" "a \<in> set (posAnchors pos)"
      "a_markClass a = Some mc" "g \<in> fst ` set (mc_glyphs mc)" "n = mc_name mc"
      unfolding cm by blast
    moreover from this have "a \<in> set (lookupAnchors attachments)" "mc_glyphs mc \<noteq> []"
      by (auto simp: lookupAnchors_def)
    ultimately show "n \<in> {name. \<exists>anchor \<in> set (lookupAnchors attachments). \<exists>markClass.
                a_markClass anchor = Some markClass \<and> mc_glyphs markClass \<noteq> []
                \<and> name = mc_name markClass}" by blast
  next
    fix n assume "n \<in> {name. \<exists>anchor \<in> set (lookupAnchors attachments). \<exists>markClass.
                a_markClass anchor = Some markClass \<and> mc_glyphs markClass \<noteq> []
                \<and> name = mc_name markClass}"
    then obtain a mc where a: "a \<in> set (lookupAnchors attachments)"
      and mc: "a_markClass a = Some mc" "mc_glyphs mc \<noteq> []" "n = mc_name mc" by blast
    from a obtain pos where pos: "pos \<in> set attachments" "a \<in> set (posAnchors pos)"
      by (auto simp: lookupAnchors_def)
    from mc(2) obtain g where g: "g \<in> fst ` set (mc_glyphs mc)" unfolding ne by blast
    have "covers m g n" unfolding cm using pos mc(1,3) g by blast
    then obtain s where "(g, s) \<in> set m" "n \<in> set s" using covers_mem[OF dm] by blast
    then show "n \<in> set (concat (map snd m))" by force
  qed
qed

lemma groupMarkClasses_names:
  assumes "groupMarkClasses m = Inr grouped"
  shows "(\<Union>markClasses \<in> set grouped. set markClasses) = set (concat (map snd m))"
proof -
  let ?groups = "map sort (colorGraph (conflictGraph m))"
  from assms obtain keys where k: "mapE groupSortKey ?groups = Inr keys"
    and g: "grouped = map snd (sort_key fst (zip keys ?groups))"
    by (auto simp: groupMarkClasses_def Let_def split: sum.splits)
  have "length keys = length ?groups" using k by (rule mapE_length)
  then have "map snd (zip keys ?groups) = ?groups" by simp
  moreover have "set grouped = set (map snd (zip keys ?groups))"
    unfolding g by simp
  ultimately have "set grouped = set ?groups" by simp
  then have "(\<Union>markClasses \<in> set grouped. set markClasses)
      = set (concat (colorGraph (conflictGraph m)))" by simp
  also have "\<dots> = fst ` set (conflictGraph m)"
    using conflictGraph_props[of m] by (intro colorGraph_set) blast
  also have "\<dots> = set (concat (map snd m))" using conflictGraph_props[of m] by blast
  finally show ?thesis .
qed

subsection \<open>The invariant of the lookups\<close>

text \<open>
  Claim C3. Every lookup that \<^verbatim>\<open>_groupAttachments\<close> returns satisfies the invariant:
  two marks of the lookup whose mark classes share a mark glyph have mark classes
  of the same name. This holds with the option \<^verbatim>\<open>groupMarkClasses\<close>, by the colouring
  of the conflict graph, and without it, where a lookup has one mark class. The
  lookups are the restrictions of the attachments to the groups of mark classes.
  With the option the groups hold together the names of the mark classes of the
  marks of the attachments, those classes that hold a glyph; without it there is
  a group for each entry of the dictionary of mark classes.
\<close>

theorem groupAttachments_lookup_invariant:
  assumes "groupAttachments groupMarkClassesOption contextMarkClasses attachments = Inr lookups"
  shows "(\<forall>lookup \<in> set lookups. lookupInvariant lookup)
       \<and> (\<exists>groupedMarkClasses.
            lookups = map (\<lambda>markClasses. restrictLookup markClasses attachments)
                        groupedMarkClasses
          \<and> (if groupMarkClassesOption
             then (\<Union>markClasses \<in> set groupedMarkClasses. set markClasses)
                    = {name. \<exists>anchor \<in> set (lookupAnchors attachments). \<exists>markClass.
                         a_markClass anchor = Some markClass \<and> mc_glyphs markClass \<noteq> []
                         \<and> name = mc_name markClass}
             else groupedMarkClasses
                    = map (\<lambda>item. [mc_name (snd item)]) (sort_key fst contextMarkClasses)))"
proof (cases groupMarkClassesOption)
  case False
  have m: "mapE (\<lambda>markClasses. makeLookup markClasses attachments)
      (map (\<lambda>item. [mc_name (snd item)]) (sort_key fst contextMarkClasses)) = Inr lookups"
    using assms False by (intro groupAttachments_disabled) simp
  have groups: "\<exists>groupedMarkClasses.
            lookups = map (\<lambda>markClasses. restrictLookup markClasses attachments)
                        groupedMarkClasses
          \<and> (if groupMarkClassesOption
             then (\<Union>markClasses \<in> set groupedMarkClasses. set markClasses)
                    = {name. \<exists>anchor \<in> set (lookupAnchors attachments). \<exists>markClass.
                         a_markClass anchor = Some markClass \<and> mc_glyphs markClass \<noteq> []
                         \<and> name = mc_name markClass}
             else groupedMarkClasses
                    = map (\<lambda>item. [mc_name (snd item)]) (sort_key fst contextMarkClasses))"
    using lookups_restrict[OF m] False by simp
  have "\<forall>lookup \<in> set lookups. lookupInvariant lookup"
  proof
    fix lookup assume "lookup \<in> set lookups"
    from mapE_member[OF m this] obtain G where
      G: "G \<in> set (map (\<lambda>item. [mc_name (snd item)]) (sort_key fst contextMarkClasses))"
      and mk: "makeLookup G attachments = Inr lookup" by blast
    from G obtain name where "G = [name]" by auto
    with mk show "lookupInvariant lookup" by (simp add: makeLookup_single_invariant)
  qed
  with groups show ?thesis by (rule conjI[rotated])
next
  case True
  from assms True obtain m grouped where m: "collectGlyphClasses attachments = Inr m"
    and grouped: "groupMarkClasses m = Inr grouped"
    and l: "mapE (\<lambda>markClasses. makeLookup markClasses attachments) grouped = Inr lookups"
    by (auto simp: groupAttachments_def split: sum.splits)
  have dict: "distinct (map fst (conflictGraph m))" using conflictGraph_props[of m] by blast
  have names: "(\<Union>markClasses \<in> set grouped. set markClasses)
      = {name. \<exists>anchor \<in> set (lookupAnchors attachments). \<exists>markClass.
           a_markClass anchor = Some markClass \<and> mc_glyphs markClass \<noteq> []
           \<and> name = mc_name markClass}"
    unfolding groupMarkClasses_names[OF grouped] using m by (rule collectGlyphClasses_names)
  have "lookups = map (\<lambda>markClasses. restrictLookup markClasses attachments) grouped
      \<and> (if groupMarkClassesOption
         then (\<Union>markClasses \<in> set grouped. set markClasses)
                = {name. \<exists>anchor \<in> set (lookupAnchors attachments). \<exists>markClass.
                     a_markClass anchor = Some markClass \<and> mc_glyphs markClass \<noteq> []
                     \<and> name = mc_name markClass}
         else grouped = map (\<lambda>item. [mc_name (snd item)]) (sort_key fst contextMarkClasses))"
    using lookups_restrict[OF l] names True by simp
  then have groups: "\<exists>groupedMarkClasses.
            lookups = map (\<lambda>markClasses. restrictLookup markClasses attachments)
                        groupedMarkClasses
          \<and> (if groupMarkClassesOption
             then (\<Union>markClasses \<in> set groupedMarkClasses. set markClasses)
                    = {name. \<exists>anchor \<in> set (lookupAnchors attachments). \<exists>markClass.
                         a_markClass anchor = Some markClass \<and> mc_glyphs markClass \<noteq> []
                         \<and> name = mc_name markClass}
             else groupedMarkClasses
                    = map (\<lambda>item. [mc_name (snd item)]) (sort_key fst contextMarkClasses))"
    by (rule exI)
  have "\<forall>lookup \<in> set lookups. lookupInvariant lookup"
  proof
    fix lookup assume "lookup \<in> set lookups"
    from mapE_member[OF l this] obtain G where G: "G \<in> set grouped"
      and mk: "makeLookup G attachments = Inr lookup" by auto
    from groupMarkClasses_groups[OF grouped G] obtain cg where
      cg: "cg \<in> set (colorGraph (conflictGraph m))" "set G = set cg" by blast
    show "lookupInvariant lookup"
      unfolding lookupInvariant_def
    proof (intro ballI)
      fix a1 a2
      assume a: "a1 \<in> set (lookupAnchors lookup)" "a2 \<in> set (lookupAnchors lookup)"
      from makeLookup_sound[OF mk a(1)] obtain mc1 where
        1: "a1 \<in> set (lookupAnchors attachments)" "a_markClass a1 = Some mc1"
          "mc_name mc1 \<in> set G" by auto
      from makeLookup_sound[OF mk a(2)] obtain mc2 where
        2: "a2 \<in> set (lookupAnchors attachments)" "a_markClass a2 = Some mc2"
          "mc_name mc2 \<in> set G" by auto
      have "mc_name mc1 = mc_name mc2"
        if sh: "\<exists>glyph \<in> fst ` set (mc_glyphs mc1). glyph \<in> fst ` set (mc_glyphs mc2)"
      proof (rule ccontr)
        assume ne: "mc_name mc1 \<noteq> mc_name mc2"
        from sh obtain g where g: "g \<in> fst ` set (mc_glyphs mc1)"
          "g \<in> fst ` set (mc_glyphs mc2)" by blast
        have "covers m g (mc_name mc1)" "covers m g (mc_name mc2)"
          using collectGlyphClasses_covers[OF m 1(1,2) g(1)]
            collectGlyphClasses_covers[OF m 2(1,2) g(2)] by simp_all
        then obtain s where ms: "map_of m g = Some s"
          and in1: "mc_name mc1 \<in> set s" and in2: "mc_name mc2 \<in> set s"
          unfolding covers_def by auto
        from ms have "(g, s) \<in> set m" by (rule map_of_SomeD)
        with in1 in2 have s: "(g, s) \<in> set m" "mc_name mc1 \<in> set s" "mc_name mc2 \<in> set s"
          by simp_all
        have "adjacent (conflictGraph m) (mc_name mc1) (mc_name mc2)"
          using s ne by (rule conflictGraph_adjacent)
        moreover have "\<not> adjacent (conflictGraph m) (mc_name mc1) (mc_name mc2)"
          using dict conflictGraph_symmetric cg(1) _ _ ne
          by (rule colorGraph_conflict_free) (use 1(3) 2(3) cg(2) in simp_all)
        ultimately show False by simp
      qed
      then show "case a_markClass a1 of None \<Rightarrow> True
          | Some mc1 \<Rightarrow>
              (case a_markClass a2 of None \<Rightarrow> True
               | Some mc2 \<Rightarrow>
                   (\<exists>glyph \<in> fst ` set (mc_glyphs mc1). glyph \<in> fst ` set (mc_glyphs mc2))
                     \<longrightarrow> mc_name mc1 = mc_name mc2)"
        using 1(2) 2(2) by simp
    qed
  qed
  with groups show ?thesis by (rule conjI[rotated])
qed

theorem groupAttachments_lookup_invariant_witness:
  "groupAttachments True
     [(''top.alt'', \<lparr>mc_name = ''MC_top.alt'', mc_glyphs =
             [(''acutecomb'', \<lparr>anchor_x = 10, anchor_y = 0, contourpoint = None,
                 xDeviceTable = None, yDeviceTable = None\<rparr>)]\<rparr>),
      (''top'', \<lparr>mc_name = ''MC_top'', mc_glyphs =
             [(''acutecomb'', \<lparr>anchor_x = 0, anchor_y = 0, contourpoint = None,
                 xDeviceTable = None, yDeviceTable = None\<rparr>), (''gravecomb'', \<lparr>anchor_x = 0, anchor_y = 0, contourpoint = None,
                 xDeviceTable = None, yDeviceTable = None\<rparr>)]\<rparr>)]
     [MarkToBasePos ''a''
        [\<lparr>a_name = ''top'', a_x = 100::int, a_y = 500, a_isMark = False, a_key = ''top'',
          a_number = None, a_markClass = Some (\<lparr>mc_name = ''MC_top'', mc_glyphs =
             [(''acutecomb'', \<lparr>anchor_x = 0, anchor_y = 0, contourpoint = None,
                 xDeviceTable = None, yDeviceTable = None\<rparr>), (''gravecomb'', \<lparr>anchor_x = 0, anchor_y = 0, contourpoint = None,
                 xDeviceTable = None, yDeviceTable = None\<rparr>)]\<rparr>),
          a_isContextual = False, a_isIgnorable = False, a_libData = None\<rparr>,
         \<lparr>a_name = ''top.alt'', a_x = 120, a_y = 500, a_isMark = False, a_key = ''top.alt'',
          a_number = None, a_markClass = Some (\<lparr>mc_name = ''MC_top.alt'', mc_glyphs =
             [(''acutecomb'', \<lparr>anchor_x = 10, anchor_y = 0, contourpoint = None,
                 xDeviceTable = None, yDeviceTable = None\<rparr>)]\<rparr>),
          a_isContextual = False, a_isIgnorable = False, a_libData = None\<rparr>]]
   = Inr [[MarkToBasePos ''a''
        [\<lparr>a_name = ''top.alt'', a_x = 120, a_y = 500, a_isMark = False, a_key = ''top.alt'',
          a_number = None, a_markClass = Some (\<lparr>mc_name = ''MC_top.alt'', mc_glyphs =
             [(''acutecomb'', \<lparr>anchor_x = 10, anchor_y = 0, contourpoint = None,
                 xDeviceTable = None, yDeviceTable = None\<rparr>)]\<rparr>),
          a_isContextual = False, a_isIgnorable = False, a_libData = None\<rparr>]],
      [MarkToBasePos ''a''
        [\<lparr>a_name = ''top'', a_x = 100, a_y = 500, a_isMark = False, a_key = ''top'',
          a_number = None, a_markClass = Some (\<lparr>mc_name = ''MC_top'', mc_glyphs =
             [(''acutecomb'', \<lparr>anchor_x = 0, anchor_y = 0, contourpoint = None,
                 xDeviceTable = None, yDeviceTable = None\<rparr>), (''gravecomb'', \<lparr>anchor_x = 0, anchor_y = 0, contourpoint = None,
                 xDeviceTable = None, yDeviceTable = None\<rparr>)]\<rparr>),
          a_isContextual = False, a_isIgnorable = False, a_libData = None\<rparr>]]]
   \<and> lookupInvariant
       [MarkToBasePos ''a''
        [\<lparr>a_name = ''top'', a_x = 100::int, a_y = 500, a_isMark = False, a_key = ''top'',
          a_number = None, a_markClass = Some (\<lparr>mc_name = ''MC_top'', mc_glyphs =
             [(''acutecomb'', \<lparr>anchor_x = 0, anchor_y = 0, contourpoint = None,
                 xDeviceTable = None, yDeviceTable = None\<rparr>), (''gravecomb'', \<lparr>anchor_x = 0, anchor_y = 0, contourpoint = None,
                 xDeviceTable = None, yDeviceTable = None\<rparr>)]\<rparr>),
          a_isContextual = False, a_isIgnorable = False, a_libData = None\<rparr>]]
   \<and> groupAttachments False
     [(''top.alt'', \<lparr>mc_name = ''MC_top.alt'', mc_glyphs =
             [(''acutecomb'', \<lparr>anchor_x = 10, anchor_y = 0, contourpoint = None,
                 xDeviceTable = None, yDeviceTable = None\<rparr>)]\<rparr>),
      (''top'', \<lparr>mc_name = ''MC_top'', mc_glyphs =
             [(''acutecomb'', \<lparr>anchor_x = 0, anchor_y = 0, contourpoint = None,
                 xDeviceTable = None, yDeviceTable = None\<rparr>), (''gravecomb'', \<lparr>anchor_x = 0, anchor_y = 0, contourpoint = None,
                 xDeviceTable = None, yDeviceTable = None\<rparr>)]\<rparr>)]
     [MarkToBasePos ''a''
        [\<lparr>a_name = ''top'', a_x = 100::int, a_y = 500, a_isMark = False, a_key = ''top'',
          a_number = None, a_markClass = Some (\<lparr>mc_name = ''MC_top'', mc_glyphs =
             [(''acutecomb'', \<lparr>anchor_x = 0, anchor_y = 0, contourpoint = None,
                 xDeviceTable = None, yDeviceTable = None\<rparr>), (''gravecomb'', \<lparr>anchor_x = 0, anchor_y = 0, contourpoint = None,
                 xDeviceTable = None, yDeviceTable = None\<rparr>)]\<rparr>),
          a_isContextual = False, a_isIgnorable = False, a_libData = None\<rparr>,
         \<lparr>a_name = ''top.alt'', a_x = 120, a_y = 500, a_isMark = False, a_key = ''top.alt'',
          a_number = None, a_markClass = Some (\<lparr>mc_name = ''MC_top.alt'', mc_glyphs =
             [(''acutecomb'', \<lparr>anchor_x = 10, anchor_y = 0, contourpoint = None,
                 xDeviceTable = None, yDeviceTable = None\<rparr>)]\<rparr>),
          a_isContextual = False, a_isIgnorable = False, a_libData = None\<rparr>]]
   = Inr [[MarkToBasePos ''a''
        [\<lparr>a_name = ''top'', a_x = 100, a_y = 500, a_isMark = False, a_key = ''top'',
          a_number = None, a_markClass = Some (\<lparr>mc_name = ''MC_top'', mc_glyphs =
             [(''acutecomb'', \<lparr>anchor_x = 0, anchor_y = 0, contourpoint = None,
                 xDeviceTable = None, yDeviceTable = None\<rparr>), (''gravecomb'', \<lparr>anchor_x = 0, anchor_y = 0, contourpoint = None,
                 xDeviceTable = None, yDeviceTable = None\<rparr>)]\<rparr>),
          a_isContextual = False, a_isIgnorable = False, a_libData = None\<rparr>]],
      [MarkToBasePos ''a''
        [\<lparr>a_name = ''top.alt'', a_x = 120, a_y = 500, a_isMark = False, a_key = ''top.alt'',
          a_number = None, a_markClass = Some (\<lparr>mc_name = ''MC_top.alt'', mc_glyphs =
             [(''acutecomb'', \<lparr>anchor_x = 10, anchor_y = 0, contourpoint = None,
                 xDeviceTable = None, yDeviceTable = None\<rparr>)]\<rparr>),
          a_isContextual = False, a_isIgnorable = False, a_libData = None\<rparr>]]]
   \<and> lookupInvariant
       [MarkToBasePos ''a''
        [\<lparr>a_name = ''top.alt'', a_x = 120::int, a_y = 500, a_isMark = False, a_key = ''top.alt'',
          a_number = None, a_markClass = Some (\<lparr>mc_name = ''MC_top.alt'', mc_glyphs =
             [(''acutecomb'', \<lparr>anchor_x = 10, anchor_y = 0, contourpoint = None,
                 xDeviceTable = None, yDeviceTable = None\<rparr>)]\<rparr>),
          a_isContextual = False, a_isIgnorable = False, a_libData = None\<rparr>]]"
proof -
  define mcTop where "mcTop = \<lparr>mc_name = ''MC_top'', mc_glyphs =
             [(''acutecomb'', \<lparr>anchor_x = 0, anchor_y = 0, contourpoint = None,
                 xDeviceTable = None, yDeviceTable = None\<rparr>), (''gravecomb'', \<lparr>anchor_x = 0, anchor_y = 0, contourpoint = None,
                 xDeviceTable = None, yDeviceTable = None\<rparr>)]\<rparr>"
  define mcAlt where "mcAlt = \<lparr>mc_name = ''MC_top.alt'', mc_glyphs =
             [(''acutecomb'', \<lparr>anchor_x = 10, anchor_y = 0, contourpoint = None,
                 xDeviceTable = None, yDeviceTable = None\<rparr>)]\<rparr>"
  define aTop where "aTop = \<lparr>a_name = ''top'', a_x = 100::int, a_y = 500, a_isMark = False, a_key = ''top'',
          a_number = None, a_markClass = Some (mcTop),
          a_isContextual = False, a_isIgnorable = False, a_libData = None\<rparr>"
  define aAlt where "aAlt = \<lparr>a_name = ''top.alt'', a_x = 120::int, a_y = 500, a_isMark = False, a_key = ''top.alt'',
          a_number = None, a_markClass = Some (mcAlt),
          a_isContextual = False, a_isIgnorable = False, a_libData = None\<rparr>"
  define M where "M = [(''top.alt'', mcAlt), (''top'', mcTop)]"
  define atts where "atts = [MarkToBasePos ''a'' [aTop, aAlt]]"

  have runT: "groupAttachments True M atts
      = Inr [[MarkToBasePos ''a'' [aAlt]], [MarkToBasePos ''a'' [aTop]]]"
    unfolding M_def atts_def aTop_def aAlt_def mcTop_def mcAlt_def by code_simp
  have runF: "groupAttachments False M atts
      = Inr [[MarkToBasePos ''a'' [aTop]], [MarkToBasePos ''a'' [aAlt]]]"
    unfolding M_def atts_def aTop_def aAlt_def mcTop_def mcAlt_def by code_simp
  from groupAttachments_lookup_invariant[OF runT]
  have "\<forall>lookup \<in> set [[MarkToBasePos ''a'' [aAlt]], [MarkToBasePos ''a'' [aTop]]].
      lookupInvariant lookup" by (rule conjunct1)
  then have 1: "lookupInvariant [MarkToBasePos ''a'' [aTop]]" by simp
  from groupAttachments_lookup_invariant[OF runF]
  have "\<forall>lookup \<in> set [[MarkToBasePos ''a'' [aTop]], [MarkToBasePos ''a'' [aAlt]]].
      lookupInvariant lookup" by (rule conjunct1)
  then have 2: "lookupInvariant [MarkToBasePos ''a'' [aAlt]]" by simp
  from runT 1 runF 2 show ?thesis
    unfolding M_def atts_def aTop_def aAlt_def mcTop_def mcAlt_def by (intro conjI)
qed

theorem groupAttachments_one_lookup_per_key_witness:
  "groupAttachments False
     [(''top.alt'', \<lparr>mc_name = ''MC_top.alt'', mc_glyphs =
             [(''acutecomb'', \<lparr>anchor_x = 10, anchor_y = 0, contourpoint = None,
                 xDeviceTable = None, yDeviceTable = None\<rparr>)]\<rparr>),
      (''top'', \<lparr>mc_name = ''MC_top'', mc_glyphs =
             [(''acutecomb'', \<lparr>anchor_x = 0, anchor_y = 0, contourpoint = None,
                 xDeviceTable = None, yDeviceTable = None\<rparr>), (''gravecomb'', \<lparr>anchor_x = 0, anchor_y = 0, contourpoint = None,
                 xDeviceTable = None, yDeviceTable = None\<rparr>)]\<rparr>)]
     [MarkToBasePos ''a''
        [\<lparr>a_name = ''top'', a_x = 100::int, a_y = 500, a_isMark = False, a_key = ''top'',
          a_number = None, a_markClass = Some (\<lparr>mc_name = ''MC_top'', mc_glyphs =
             [(''acutecomb'', \<lparr>anchor_x = 0, anchor_y = 0, contourpoint = None,
                 xDeviceTable = None, yDeviceTable = None\<rparr>), (''gravecomb'', \<lparr>anchor_x = 0, anchor_y = 0, contourpoint = None,
                 xDeviceTable = None, yDeviceTable = None\<rparr>)]\<rparr>),
          a_isContextual = False, a_isIgnorable = False, a_libData = None\<rparr>,
         \<lparr>a_name = ''top.alt'', a_x = 120, a_y = 500, a_isMark = False, a_key = ''top.alt'',
          a_number = None, a_markClass = Some (\<lparr>mc_name = ''MC_top.alt'', mc_glyphs =
             [(''acutecomb'', \<lparr>anchor_x = 10, anchor_y = 0, contourpoint = None,
                 xDeviceTable = None, yDeviceTable = None\<rparr>)]\<rparr>),
          a_isContextual = False, a_isIgnorable = False, a_libData = None\<rparr>]]
   = Inr [[MarkToBasePos ''a''
        [\<lparr>a_name = ''top'', a_x = 100, a_y = 500, a_isMark = False, a_key = ''top'',
          a_number = None, a_markClass = Some (\<lparr>mc_name = ''MC_top'', mc_glyphs =
             [(''acutecomb'', \<lparr>anchor_x = 0, anchor_y = 0, contourpoint = None,
                 xDeviceTable = None, yDeviceTable = None\<rparr>), (''gravecomb'', \<lparr>anchor_x = 0, anchor_y = 0, contourpoint = None,
                 xDeviceTable = None, yDeviceTable = None\<rparr>)]\<rparr>),
          a_isContextual = False, a_isIgnorable = False, a_libData = None\<rparr>]],
      [MarkToBasePos ''a''
        [\<lparr>a_name = ''top.alt'', a_x = 120, a_y = 500, a_isMark = False, a_key = ''top.alt'',
          a_number = None, a_markClass = Some (\<lparr>mc_name = ''MC_top.alt'', mc_glyphs =
             [(''acutecomb'', \<lparr>anchor_x = 10, anchor_y = 0, contourpoint = None,
                 xDeviceTable = None, yDeviceTable = None\<rparr>)]\<rparr>),
          a_isContextual = False, a_isIgnorable = False, a_libData = None\<rparr>]]]
   \<and> ''top'' < ''top.alt''
   \<and> (\<exists>i j. i < j \<and> j < (2::nat)
        \<and> makeLookup [mc_name (\<lparr>mc_name = ''MC_top'', mc_glyphs =
             [(''acutecomb'', \<lparr>anchor_x = 0, anchor_y = 0, contourpoint = None,
                 xDeviceTable = None, yDeviceTable = None\<rparr>), (''gravecomb'', \<lparr>anchor_x = 0, anchor_y = 0, contourpoint = None,
                 xDeviceTable = None, yDeviceTable = None\<rparr>)]\<rparr>)] [MarkToBasePos ''a''
        [\<lparr>a_name = ''top'', a_x = 100::int, a_y = 500, a_isMark = False, a_key = ''top'',
          a_number = None, a_markClass = Some (\<lparr>mc_name = ''MC_top'', mc_glyphs =
             [(''acutecomb'', \<lparr>anchor_x = 0, anchor_y = 0, contourpoint = None,
                 xDeviceTable = None, yDeviceTable = None\<rparr>), (''gravecomb'', \<lparr>anchor_x = 0, anchor_y = 0, contourpoint = None,
                 xDeviceTable = None, yDeviceTable = None\<rparr>)]\<rparr>),
          a_isContextual = False, a_isIgnorable = False, a_libData = None\<rparr>,
         \<lparr>a_name = ''top.alt'', a_x = 120, a_y = 500, a_isMark = False, a_key = ''top.alt'',
          a_number = None, a_markClass = Some (\<lparr>mc_name = ''MC_top.alt'', mc_glyphs =
             [(''acutecomb'', \<lparr>anchor_x = 10, anchor_y = 0, contourpoint = None,
                 xDeviceTable = None, yDeviceTable = None\<rparr>)]\<rparr>),
          a_isContextual = False, a_isIgnorable = False, a_libData = None\<rparr>]] = Inr ([[MarkToBasePos ''a''
        [\<lparr>a_name = ''top'', a_x = 100, a_y = 500, a_isMark = False, a_key = ''top'',
          a_number = None, a_markClass = Some (\<lparr>mc_name = ''MC_top'', mc_glyphs =
             [(''acutecomb'', \<lparr>anchor_x = 0, anchor_y = 0, contourpoint = None,
                 xDeviceTable = None, yDeviceTable = None\<rparr>), (''gravecomb'', \<lparr>anchor_x = 0, anchor_y = 0, contourpoint = None,
                 xDeviceTable = None, yDeviceTable = None\<rparr>)]\<rparr>),
          a_isContextual = False, a_isIgnorable = False, a_libData = None\<rparr>]],
      [MarkToBasePos ''a''
        [\<lparr>a_name = ''top.alt'', a_x = 120, a_y = 500, a_isMark = False, a_key = ''top.alt'',
          a_number = None, a_markClass = Some (\<lparr>mc_name = ''MC_top.alt'', mc_glyphs =
             [(''acutecomb'', \<lparr>anchor_x = 10, anchor_y = 0, contourpoint = None,
                 xDeviceTable = None, yDeviceTable = None\<rparr>)]\<rparr>),
          a_isContextual = False, a_isIgnorable = False, a_libData = None\<rparr>]]] ! i)
        \<and> makeLookup [mc_name (\<lparr>mc_name = ''MC_top.alt'', mc_glyphs =
             [(''acutecomb'', \<lparr>anchor_x = 10, anchor_y = 0, contourpoint = None,
                 xDeviceTable = None, yDeviceTable = None\<rparr>)]\<rparr>)] [MarkToBasePos ''a''
        [\<lparr>a_name = ''top'', a_x = 100::int, a_y = 500, a_isMark = False, a_key = ''top'',
          a_number = None, a_markClass = Some (\<lparr>mc_name = ''MC_top'', mc_glyphs =
             [(''acutecomb'', \<lparr>anchor_x = 0, anchor_y = 0, contourpoint = None,
                 xDeviceTable = None, yDeviceTable = None\<rparr>), (''gravecomb'', \<lparr>anchor_x = 0, anchor_y = 0, contourpoint = None,
                 xDeviceTable = None, yDeviceTable = None\<rparr>)]\<rparr>),
          a_isContextual = False, a_isIgnorable = False, a_libData = None\<rparr>,
         \<lparr>a_name = ''top.alt'', a_x = 120, a_y = 500, a_isMark = False, a_key = ''top.alt'',
          a_number = None, a_markClass = Some (\<lparr>mc_name = ''MC_top.alt'', mc_glyphs =
             [(''acutecomb'', \<lparr>anchor_x = 10, anchor_y = 0, contourpoint = None,
                 xDeviceTable = None, yDeviceTable = None\<rparr>)]\<rparr>),
          a_isContextual = False, a_isIgnorable = False, a_libData = None\<rparr>]] = Inr ([[MarkToBasePos ''a''
        [\<lparr>a_name = ''top'', a_x = 100, a_y = 500, a_isMark = False, a_key = ''top'',
          a_number = None, a_markClass = Some (\<lparr>mc_name = ''MC_top'', mc_glyphs =
             [(''acutecomb'', \<lparr>anchor_x = 0, anchor_y = 0, contourpoint = None,
                 xDeviceTable = None, yDeviceTable = None\<rparr>), (''gravecomb'', \<lparr>anchor_x = 0, anchor_y = 0, contourpoint = None,
                 xDeviceTable = None, yDeviceTable = None\<rparr>)]\<rparr>),
          a_isContextual = False, a_isIgnorable = False, a_libData = None\<rparr>]],
      [MarkToBasePos ''a''
        [\<lparr>a_name = ''top.alt'', a_x = 120, a_y = 500, a_isMark = False, a_key = ''top.alt'',
          a_number = None, a_markClass = Some (\<lparr>mc_name = ''MC_top.alt'', mc_glyphs =
             [(''acutecomb'', \<lparr>anchor_x = 10, anchor_y = 0, contourpoint = None,
                 xDeviceTable = None, yDeviceTable = None\<rparr>)]\<rparr>),
          a_isContextual = False, a_isIgnorable = False, a_libData = None\<rparr>]]] ! j))"
proof -
  define mcTop where "mcTop = \<lparr>mc_name = ''MC_top'', mc_glyphs =
             [(''acutecomb'', \<lparr>anchor_x = 0, anchor_y = 0, contourpoint = None,
                 xDeviceTable = None, yDeviceTable = None\<rparr>), (''gravecomb'', \<lparr>anchor_x = 0, anchor_y = 0, contourpoint = None,
                 xDeviceTable = None, yDeviceTable = None\<rparr>)]\<rparr>"
  define mcAlt where "mcAlt = \<lparr>mc_name = ''MC_top.alt'', mc_glyphs =
             [(''acutecomb'', \<lparr>anchor_x = 10, anchor_y = 0, contourpoint = None,
                 xDeviceTable = None, yDeviceTable = None\<rparr>)]\<rparr>"
  define aTop where "aTop = \<lparr>a_name = ''top'', a_x = 100::int, a_y = 500, a_isMark = False, a_key = ''top'',
          a_number = None, a_markClass = Some (mcTop),
          a_isContextual = False, a_isIgnorable = False, a_libData = None\<rparr>"
  define aAlt where "aAlt = \<lparr>a_name = ''top.alt'', a_x = 120::int, a_y = 500, a_isMark = False, a_key = ''top.alt'',
          a_number = None, a_markClass = Some (mcAlt),
          a_isContextual = False, a_isIgnorable = False, a_libData = None\<rparr>"
  define M where "M = [(''top.alt'', mcAlt), (''top'', mcTop)]"
  define atts where "atts = [MarkToBasePos ''a'' [aTop, aAlt]]"

  define LF where "LF = [[MarkToBasePos ''a'' [aTop]], [MarkToBasePos ''a'' [aAlt]]]"
  have runF: "groupAttachments False M atts = Inr LF"
    unfolding LF_def M_def atts_def aTop_def aAlt_def mcTop_def mcAlt_def by code_simp
  note T = groupAttachments_one_lookup_per_key
    [OF runF, where key = "''top''" and suffix = "''.alt''" and ?key1.0 = "''top''"
       and ?key2.0 = "''top.alt''" and ?mc1.0 = mcTop and ?mc2.0 = mcAlt]
  have ne: "''.alt'' \<noteq> []" by simp
  from T have "''.alt'' \<noteq> [] \<longrightarrow> ''top'' < ''top'' @ ''.alt''" by (elim conjE)
  with ne have "''top'' < ''top'' @ ''.alt''" by (rule rev_mp)
  then have lt: "''top'' < ''top.alt''" by simp
  have entries: "(''top'', mcTop) \<in> set M \<and> (''top.alt'', mcAlt) \<in> set M
      \<and> ''top'' < ''top.alt''"
    using lt by (simp add: M_def)
  from T have "(''top'', mcTop) \<in> set M \<and> (''top.alt'', mcAlt) \<in> set M
      \<and> ''top'' < ''top.alt''
      \<longrightarrow> (\<exists>i j. i < j \<and> j < length LF
            \<and> makeLookup [mc_name mcTop] atts = Inr (LF ! i)
            \<and> makeLookup [mc_name mcAlt] atts = Inr (LF ! j))"
    by (elim conjE)
  with entries have order: "\<exists>i j. i < j \<and> j < length LF
            \<and> makeLookup [mc_name mcTop] atts = Inr (LF ! i)
            \<and> makeLookup [mc_name mcAlt] atts = Inr (LF ! j)"
    by (rule rev_mp)
  have l2: "length LF = 2" by (simp add: LF_def)
  note order = order[unfolded l2]
  from runF lt order show ?thesis
    unfolding LF_def M_def atts_def aTop_def aAlt_def mcTop_def mcAlt_def by (intro conjI)
qed

text \<open>
  The claim C5 as the specification words it fails. The name of a mark class can
  differ from its key by more than the prefix, as after the split of a class in
  \<^verbatim>\<open>_defineMarkClass\<close>: here the mark class of the key \<^verbatim>\<open>top\<close> is named \<^verbatim>\<open>MC_top_1\<close> and
  that of the key \<^verbatim>\<open>top.alt\<close> is named \<^verbatim>\<open>MC_top.alt\<close>. The lookup of \<^verbatim>\<open>MC_top_1\<close> comes
  first, in the order of the keys, although \<^verbatim>\<open>MC_top.alt\<close> is the smaller name.
\<close>

theorem groupAttachments_order_counterexample:
  "groupAttachments False
     [(''top.alt'', \<lparr>mc_name = ''MC_top.alt'', mc_glyphs =
             [(''acutecomb'', \<lparr>anchor_x = 10, anchor_y = 0, contourpoint = None,
                 xDeviceTable = None, yDeviceTable = None\<rparr>)]\<rparr>),
      (''top'', \<lparr>mc_name = ''MC_top_1'', mc_glyphs =
             [(''acutecomb'', \<lparr>anchor_x = 5, anchor_y = 0, contourpoint = None,
                 xDeviceTable = None, yDeviceTable = None\<rparr>)]\<rparr>)]
     [MarkToBasePos ''a''
        [\<lparr>a_name = ''top'', a_x = 100::int, a_y = 500, a_isMark = False, a_key = ''top'',
          a_number = None, a_markClass = Some (\<lparr>mc_name = ''MC_top_1'', mc_glyphs =
             [(''acutecomb'', \<lparr>anchor_x = 5, anchor_y = 0, contourpoint = None,
                 xDeviceTable = None, yDeviceTable = None\<rparr>)]\<rparr>),
          a_isContextual = False, a_isIgnorable = False, a_libData = None\<rparr>,
         \<lparr>a_name = ''top.alt'', a_x = 120, a_y = 500, a_isMark = False, a_key = ''top.alt'',
          a_number = None, a_markClass = Some (\<lparr>mc_name = ''MC_top.alt'', mc_glyphs =
             [(''acutecomb'', \<lparr>anchor_x = 10, anchor_y = 0, contourpoint = None,
                 xDeviceTable = None, yDeviceTable = None\<rparr>)]\<rparr>),
          a_isContextual = False, a_isIgnorable = False, a_libData = None\<rparr>]]
   = Inr [[MarkToBasePos ''a''
        [\<lparr>a_name = ''top'', a_x = 100, a_y = 500, a_isMark = False, a_key = ''top'',
          a_number = None, a_markClass = Some (\<lparr>mc_name = ''MC_top_1'', mc_glyphs =
             [(''acutecomb'', \<lparr>anchor_x = 5, anchor_y = 0, contourpoint = None,
                 xDeviceTable = None, yDeviceTable = None\<rparr>)]\<rparr>),
          a_isContextual = False, a_isIgnorable = False, a_libData = None\<rparr>]],
      [MarkToBasePos ''a''
        [\<lparr>a_name = ''top.alt'', a_x = 120, a_y = 500, a_isMark = False, a_key = ''top.alt'',
          a_number = None, a_markClass = Some (\<lparr>mc_name = ''MC_top.alt'', mc_glyphs =
             [(''acutecomb'', \<lparr>anchor_x = 10, anchor_y = 0, contourpoint = None,
                 xDeviceTable = None, yDeviceTable = None\<rparr>)]\<rparr>),
          a_isContextual = False, a_isIgnorable = False, a_libData = None\<rparr>]]]
   \<and> ''MC_top.alt'' < ''MC_top_1''"
proof -
  have "groupAttachments False
     [(''top.alt'', \<lparr>mc_name = ''MC_top.alt'', mc_glyphs =
             [(''acutecomb'', \<lparr>anchor_x = 10, anchor_y = 0, contourpoint = None,
                 xDeviceTable = None, yDeviceTable = None\<rparr>)]\<rparr>),
      (''top'', \<lparr>mc_name = ''MC_top_1'', mc_glyphs =
             [(''acutecomb'', \<lparr>anchor_x = 5, anchor_y = 0, contourpoint = None,
                 xDeviceTable = None, yDeviceTable = None\<rparr>)]\<rparr>)]
     [MarkToBasePos ''a''
        [\<lparr>a_name = ''top'', a_x = 100::int, a_y = 500, a_isMark = False, a_key = ''top'',
          a_number = None, a_markClass = Some (\<lparr>mc_name = ''MC_top_1'', mc_glyphs =
             [(''acutecomb'', \<lparr>anchor_x = 5, anchor_y = 0, contourpoint = None,
                 xDeviceTable = None, yDeviceTable = None\<rparr>)]\<rparr>),
          a_isContextual = False, a_isIgnorable = False, a_libData = None\<rparr>,
         \<lparr>a_name = ''top.alt'', a_x = 120, a_y = 500, a_isMark = False, a_key = ''top.alt'',
          a_number = None, a_markClass = Some (\<lparr>mc_name = ''MC_top.alt'', mc_glyphs =
             [(''acutecomb'', \<lparr>anchor_x = 10, anchor_y = 0, contourpoint = None,
                 xDeviceTable = None, yDeviceTable = None\<rparr>)]\<rparr>),
          a_isContextual = False, a_isIgnorable = False, a_libData = None\<rparr>]]
   = Inr [[MarkToBasePos ''a''
        [\<lparr>a_name = ''top'', a_x = 100, a_y = 500, a_isMark = False, a_key = ''top'',
          a_number = None, a_markClass = Some (\<lparr>mc_name = ''MC_top_1'', mc_glyphs =
             [(''acutecomb'', \<lparr>anchor_x = 5, anchor_y = 0, contourpoint = None,
                 xDeviceTable = None, yDeviceTable = None\<rparr>)]\<rparr>),
          a_isContextual = False, a_isIgnorable = False, a_libData = None\<rparr>]],
      [MarkToBasePos ''a''
        [\<lparr>a_name = ''top.alt'', a_x = 120, a_y = 500, a_isMark = False, a_key = ''top.alt'',
          a_number = None, a_markClass = Some (\<lparr>mc_name = ''MC_top.alt'', mc_glyphs =
             [(''acutecomb'', \<lparr>anchor_x = 10, anchor_y = 0, contourpoint = None,
                 xDeviceTable = None, yDeviceTable = None\<rparr>)]\<rparr>),
          a_isContextual = False, a_isIgnorable = False, a_libData = None\<rparr>]]]"
    by code_simp
  moreover have "''MC_top.alt'' < ''MC_top_1''" by simp
  ultimately show ?thesis by (intro conjI)
qed

end
